theory Spec2Isabelle
  imports Main
begin

section \<open>Strings\<close>

text \<open>
  A Python \<open>str\<close> is a sequence of Unicode code points and \<open>len\<close> counts code points.
  A character is therefore modelled by its code point and a string by the list of them.
  ASCII literals of the source are written \<open>ascii ''...''\<close>; literals with characters
  beyond ASCII are given as their code points.
\<close>

type_synonym uchar = nat
type_synonym ustr = "nat list"

definition ascii :: "string \<Rightarrow> ustr" where
  "ascii s = map of_char s"

abbreviation (input) NL :: uchar where "NL \<equiv> 10"      \<comment> \<open>line feed\<close>
abbreviation (input) BSL :: uchar where "BSL \<equiv> 92"    \<comment> \<open>backslash\<close>
abbreviation (input) LBR :: uchar where "LBR \<equiv> 91"    \<comment> \<open>opening square bracket\<close>
abbreviation (input) RBR :: uchar where "RBR \<equiv> 93"    \<comment> \<open>closing square bracket\<close>
abbreviation (input) LPAR :: uchar where "LPAR \<equiv> 40"
abbreviation (input) RPAR :: uchar where "RPAR \<equiv> 41"
abbreviation (input) STAR :: uchar where "STAR \<equiv> 42"
abbreviation (input) BTICK :: uchar where "BTICK \<equiv> 96"
abbreviation (input) USCORE :: uchar where "USCORE \<equiv> 95"

text \<open>\<open>str(n)\<close> for a non-negative integer: its decimal digits.\<close>

fun dec :: "nat \<Rightarrow> ustr" where
  "dec n = (if n < 10 then [48 + n] else dec (n div 10) @ [48 + n mod 10])"

declare dec.simps [simp del]

subsection \<open>Scanning for the non-overlapping matches of a pattern\<close>

text \<open>
  \<open>re.sub\<close>, \<open>str.replace\<close> and \<open>str.split\<close> all walk the text from left to right,
  take the leftmost match, and go on behind it.  A matcher says whether the pattern
  matches at the head of the remaining text, and if so how many characters the match
  takes (at least one for every pattern of this program) and what group 1 holds.
  \<open>re_scan m k text\<close> cuts the text into literal characters and matches; \<open>k\<close> is the
  number of characters still covered by the match found last.
\<close>

datatype token = is_Lit: Lit uchar | is_Match: Match ustr ustr  \<comment> \<open>group 0 and group 1\<close>

type_synonym matcher = "ustr \<Rightarrow> (nat \<times> ustr) option"

fun re_scan :: "matcher \<Rightarrow> nat \<Rightarrow> ustr \<Rightarrow> token list" where
  "re_scan m k [] = []"
| "re_scan m (Suc k) (c # cs) = re_scan m k cs"
| "re_scan m 0 (c # cs) =
     (case m (c # cs) of
        None \<Rightarrow> Lit c # re_scan m 0 cs
      | Some (n, g) \<Rightarrow> Match (take n (c # cs)) g # re_scan m (n - 1) cs)"

text \<open>\<open>text.replace(old, new)\<close>.  With an empty \<open>old\<close> Python puts \<open>new\<close> around every character.\<close>

definition match_literal :: "ustr \<Rightarrow> matcher" where
  "match_literal old s = (if take (length old) s = old then Some (length old, []) else None)"

definition str_replace :: "ustr \<Rightarrow> ustr \<Rightarrow> ustr \<Rightarrow> ustr" where
  "str_replace old new text =
     (if old = [] then new @ concat (map (\<lambda>c. c # new) text)
      else concat (map (\<lambda>t. case t of Lit c \<Rightarrow> [c] | Match w g \<Rightarrow> new)
                       (re_scan (match_literal old) 0 text)))"

text \<open>\<open>text.split(sep)\<close> for a non-empty separator.\<close>

fun split_tokens :: "token list \<Rightarrow> ustr list" where
  "split_tokens [] = [[]]"
| "split_tokens (Lit c # ts) =
     (case split_tokens ts of [] \<Rightarrow> [[c]] | p # ps \<Rightarrow> (c # p) # ps)"
| "split_tokens (Match w g # ts) = [] # split_tokens ts"

definition str_split :: "ustr \<Rightarrow> ustr \<Rightarrow> ustr list" where
  "str_split sep text = split_tokens (re_scan (match_literal sep) 0 text)"

section \<open>Dialect converter: \<open>convert_ai_markdown_to_telegram\<close>\<close>

text \<open>
  The three extraction patterns have the shape \<open>open [^d]+ close\<close> where \<open>close\<close> starts
  with the excluded character \<open>d\<close>.  The greedy run can only be followed by \<open>d\<close> when it
  is the maximal run of characters other than \<open>d\<close> (a shorter run is followed by a
  character of the run), so backtracking never finds a second candidate.
  \<open>neg_plus_then d s\<close> is the length of that run when it is non-empty and \<open>d\<close> follows.
\<close>

definition neg_plus_then :: "uchar \<Rightarrow> ustr \<Rightarrow> nat option" where
  "neg_plus_then d s =
     (let n = length (takeWhile (\<lambda>c. c \<noteq> d) s)
      in if 0 < n \<and> n < length s then Some n else None)"

text \<open>The pattern \<^verbatim>\<open>\[([^\]]+)\]\(([^\)]+)\)\<close>.\<close>

definition match_ai_link :: matcher where
  "match_ai_link s =
     (case s of
        [] \<Rightarrow> None
      | c # s1 \<Rightarrow>
          if c \<noteq> LBR then None
          else (case neg_plus_then RBR s1 of
                  None \<Rightarrow> None
                | Some a \<Rightarrow>
                    (case drop (Suc a) s1 of
                       [] \<Rightarrow> None
                     | p # s2 \<Rightarrow>
                         if p \<noteq> LPAR then None
                         else (case neg_plus_then RPAR s2 of
                                 None \<Rightarrow> None
                               | Some b \<Rightarrow> Some (a + b + 4, take a s1)))))"

text \<open>The pattern \<^verbatim>\<open>\*\*([^\*]+)\*\*\<close>.\<close>

definition match_bold :: matcher where
  "match_bold s =
     (case s of
        c1 # c2 # s1 \<Rightarrow>
          if c1 \<noteq> STAR \<or> c2 \<noteq> STAR then None
          else (case neg_plus_then STAR s1 of
                  None \<Rightarrow> None
                | Some a \<Rightarrow>
                    (case drop (Suc a) s1 of
                       [] \<Rightarrow> None
                     | q # s2 \<Rightarrow> if q \<noteq> STAR then None else Some (a + 4, take a s1)))
      | _ \<Rightarrow> None)"

text \<open>The pattern \<^verbatim>\<open>`([^`]+)`\<close>.\<close>

definition match_code :: matcher where
  "match_code s =
     (case s of
        [] \<Rightarrow> None
      | c # s1 \<Rightarrow>
          if c \<noteq> BTICK then None
          else (case neg_plus_then BTICK s1 of
                  None \<Rightarrow> None
                | Some a \<Rightarrow> Some (a + 2, take a s1)))"

text \<open>
  \<open>re.sub(pattern, save, text)\<close> with one of the callbacks \<open>save_link\<close>, \<open>save_bold\<close>,
  \<open>save_code\<close>: each match is replaced by the prefix followed by the number of spans
  saved so far (\<open>len(links)\<close> before the append), and \<open>keep\<close> of the match is appended
  to the saved spans.
\<close>

fun re_sub_save :: "ustr \<Rightarrow> (ustr \<Rightarrow> ustr \<Rightarrow> ustr) \<Rightarrow> ustr list \<Rightarrow> token list \<Rightarrow> ustr \<times> ustr list" where
  "re_sub_save pfx keep saved [] = ([], saved)"
| "re_sub_save pfx keep saved (Lit c # ts) =
     (let (out, saved') = re_sub_save pfx keep saved ts in (c # out, saved'))"
| "re_sub_save pfx keep saved (Match w g # ts) =
     (let (out, saved') = re_sub_save pfx keep (saved @ [keep w g]) ts
      in (pfx @ dec (length saved) @ out, saved'))"

definition escape_chars_ai :: ustr where
  "escape_chars_ai = ascii ''_*[]()~`>#+-=|{}.!''"

text \<open>The character loop of step 4.\<close>

fun escape_loop :: "ustr \<Rightarrow> ustr" where
  "escape_loop [] = []"
| "escape_loop (c # cs) =
     (if c \<in> set escape_chars_ai then [BSL, c] else [c]) @ escape_loop cs"

text \<open>\<open>for i, x in enumerate(saved): text = text.replace(f"{pfx}{i}", x)\<close>\<close>

fun restore :: "ustr \<Rightarrow> nat \<Rightarrow> ustr list \<Rightarrow> ustr \<Rightarrow> ustr" where
  "restore pfx i [] text = text"
| "restore pfx i (x # xs) text = restore pfx (Suc i) xs (str_replace (pfx @ dec i) x text)"

definition convert_ai_markdown_to_telegram :: "ustr \<Rightarrow> ustr" where
  "convert_ai_markdown_to_telegram text =
     (if text = [] then []
      else
        let (t1, links) = re_sub_save (ascii ''LINK_PH_'') (\<lambda>w g. w) []
                            (re_scan match_ai_link 0 text);
            (t2, bolds) = re_sub_save (ascii ''BOLD_PH_'') (\<lambda>w g. [STAR] @ g @ [STAR]) []
                            (re_scan match_bold 0 t1);
            (t3, codes) = re_sub_save (ascii ''CODE_PH_'') (\<lambda>w g. w) []
                            (re_scan match_code 0 t2);
            t4 = escape_loop t3;
            t5 = restore (ascii ''CODE_PH_'') 0 codes t4;
            t6 = restore (ascii ''BOLD_PH_'') 0 bolds t5
        in restore (ascii ''LINK_PH_'') 0 links t6)"

section \<open>Escaper: \<open>escape_markdown_v2\<close>\<close>

text \<open>
  The link pattern of the escaper is \<^verbatim>\<open>\[.*?\]\(.*?\)\<close>: both parts are lazy and \<open>.\<close>
  matches every character except the line feed.  A lazy part first tries what follows
  it and takes one more character only when that fails.
  \<open>lazy_url\<close> is \<^verbatim>\<open>.*?\)\<close> (the number of characters taken, the parenthesis included);
  \<open>lazy_label\<close> is \<^verbatim>\<open>.*?\]\(.*?\)\<close> (the length of the label and of the whole).
\<close>

fun lazy_url :: "ustr \<Rightarrow> nat option" where
  "lazy_url [] = None"
| "lazy_url (c # cs) =
     (if c = RPAR then Some 1
      else if c = NL then None
      else map_option Suc (lazy_url cs))"

fun lazy_label :: "ustr \<Rightarrow> (nat \<times> nat) option" where
  "lazy_label [] = None"
| "lazy_label (c # cs) =
     (case (if c = RBR
            then (case cs of [] \<Rightarrow> None | p # cs' \<Rightarrow> if p = LPAR then lazy_url cs' else None)
            else None) of
        Some u \<Rightarrow> Some (0, u + 2)
      | None \<Rightarrow>
          if c = NL then None
          else map_option (\<lambda>(j, n). (Suc j, Suc n)) (lazy_label cs))"

definition match_md_link :: matcher where
  "match_md_link s =
     (case s of
        [] \<Rightarrow> None
      | c # s1 \<Rightarrow>
          if c \<noteq> LBR then None
          else map_option (\<lambda>(j, n). (Suc n, take j s1)) (lazy_label s1))"

text \<open>
  \<open>uuid.uuid4().hex\<close> is random: \<open>uu k\<close> stands for the hex digits of the \<open>k\<close>-th uuid
  the process draws, and every function that may draw one takes the number \<open>d\<close> of
  uuids drawn so far and returns the new number beside its result.
  \<open>re_sub_uuid\<close> is \<open>re.sub(pattern, link_replacer, text)\<close>.
\<close>

fun re_sub_uuid :: "(nat \<Rightarrow> ustr) \<Rightarrow> nat \<Rightarrow> token list \<Rightarrow> ustr \<times> (ustr \<times> ustr) list" where
  "re_sub_uuid uu d [] = ([], [])"
| "re_sub_uuid uu d (Lit c # ts) =
     (let (out, links) = re_sub_uuid uu d ts in (c # out, links))"
| "re_sub_uuid uu d (Match w g # ts) =
     (let placeholder = ascii ''__LINK_'' @ uu d @ ascii ''__'';
          (out, links) = re_sub_uuid uu (Suc d) ts
      in (placeholder @ out, (placeholder, w) # links))"

text \<open>
  \<open>escape_chars\<close> of the escaper is a raw string that starts with a backslash, so the
  class built from \<open>re.escape(escape_chars)\<close> holds the backslash and the 18 characters
  of the converter's list.
\<close>

definition escape_chars_v2 :: ustr where
  "escape_chars_v2 = BSL # ascii ''_*[]()~`>#+-=|{}.!''"

definition match_class :: "ustr \<Rightarrow> matcher" where
  "match_class cls s = (case s of [] \<Rightarrow> None | c # cs \<Rightarrow> if c \<in> set cls then Some (1, [c]) else None)"

text \<open>\<open>re.sub('([...])', r'\\\1', text)\<close>: a backslash and group 1 for every match.\<close>

definition re_sub_escape :: "ustr \<Rightarrow> ustr \<Rightarrow> ustr" where
  "re_sub_escape cls text =
     concat (map (\<lambda>t. case t of Lit c \<Rightarrow> [c] | Match w g \<Rightarrow> BSL # g)
                 (re_scan (match_class cls) 0 text))"

definition escape_markdown_v2 :: "(nat \<Rightarrow> ustr) \<Rightarrow> nat \<Rightarrow> ustr \<Rightarrow> ustr \<times> nat" where
  "escape_markdown_v2 uu d text =
     (if text = [] then ([], d)
      else
        let (text_without_links, links) = re_sub_uuid uu d (re_scan match_md_link 0 text);
            escaped_text = re_sub_escape escape_chars_v2 text_without_links
        in (fold (\<lambda>(placeholder, original_link) t. str_replace placeholder original_link t)
                 links escaped_text,
            d + length links))"

section \<open>Chunker: \<open>split_message_markdown\<close>\<close>

text \<open>The inner loop over the lines of a paragraph; the state is \<open>(chunks, current_chunk)\<close>.\<close>

fun pack_lines :: "int \<Rightarrow> ustr list \<Rightarrow> ustr list \<times> ustr \<Rightarrow> ustr list \<times> ustr" where
  "pack_lines max_length [] st = st"
| "pack_lines max_length (line # ls) (chunks, current_chunk) =
     (if int (length current_chunk) + int (length line) + 1 \<le> max_length
      then pack_lines max_length ls
             (chunks, (if current_chunk \<noteq> [] then current_chunk @ [NL] else current_chunk) @ line)
      else pack_lines max_length ls
             (if current_chunk \<noteq> [] then chunks @ [current_chunk] else chunks, line))"

text \<open>The outer loop over the paragraphs.\<close>

fun pack_paragraphs :: "int \<Rightarrow> ustr list \<Rightarrow> ustr list \<times> ustr \<Rightarrow> ustr list \<times> ustr" where
  "pack_paragraphs max_length [] st = st"
| "pack_paragraphs max_length (paragraph # ps) (chunks, current_chunk) =
     (if int (length current_chunk) + int (length paragraph) + 2 \<le> max_length
      then pack_paragraphs max_length ps
             (chunks,
              (if current_chunk \<noteq> [] then current_chunk @ [NL, NL] else current_chunk) @ paragraph)
      else if current_chunk \<noteq> []
      then pack_paragraphs max_length ps (chunks @ [current_chunk], paragraph)
      else pack_paragraphs max_length ps
             (pack_lines max_length (str_split [NL] paragraph) (chunks, current_chunk)))"

text \<open>The list \<open>chunks\<close> after the last chunk has been added and before the indicators.\<close>

definition split_chunks :: "ustr \<Rightarrow> int \<Rightarrow> ustr list" where
  "split_chunks text max_length =
     (let (chunks, current_chunk) = pack_paragraphs max_length (str_split [NL, NL] text) ([], [])
      in if current_chunk \<noteq> [] then chunks @ [current_chunk] else chunks)"

text \<open>
  The text of a part indicator before it is escaped: an opening parenthesis, the
  Russian word for ``part'' (code points 1095, 1072, 1089, 1090, 1100), a space,
  \<open>i\<close>, a slash, \<open>n\<close> and a closing parenthesis.
\<close>

definition part_label :: "nat \<Rightarrow> nat \<Rightarrow> ustr" where
  "part_label i n = [40, 1095, 1072, 1089, 1090, 1100, 32] @ dec i @ ascii ''/'' @ dec n @ ascii '')''"

text \<open>
  \<open>for i, chunk in enumerate(chunks, 1): chunks[i-1] = f"{chunk}\n\n_{escape_markdown_v2(...)}_"\<close>,
  where \<open>n\<close> is \<open>len(chunks)\<close>.
\<close>

fun add_indicators :: "(nat \<Rightarrow> ustr) \<Rightarrow> nat \<Rightarrow> nat \<Rightarrow> nat \<Rightarrow> ustr list \<Rightarrow> ustr list \<times> nat" where
  "add_indicators uu d n i [] = ([], d)"
| "add_indicators uu d n i (chunk # cs) =
     (let (e, d1) = escape_markdown_v2 uu d (part_label i n);
          (rest, d2) = add_indicators uu d1 n (Suc i) cs
      in ((chunk @ [NL, NL, USCORE] @ e @ [USCORE]) # rest, d2))"

definition split_message_markdown :: "(nat \<Rightarrow> ustr) \<Rightarrow> nat \<Rightarrow> ustr \<Rightarrow> int \<Rightarrow> ustr list \<times> nat" where
  "split_message_markdown uu d text max_length =
     (if int (length text) \<le> max_length then ([text], d)
      else
        let chunks = split_chunks text max_length
        in if length chunks > 1 then add_indicators uu d (length chunks) 1 chunks
           else (chunks, d))"

definition TELEGRAM_MAX_MESSAGE_LENGTH :: int where
  "TELEGRAM_MAX_MESSAGE_LENGTH = 4096"

section \<open>Fallback summarizer\<close>

text \<open>
  Python's whitespace: the characters for which \<open>str.isspace\<close> holds, which are also
  the characters \<^verbatim>\<open>\s\<close> matches in a \<open>str\<close> pattern.
\<close>

definition is_space :: "uchar \<Rightarrow> bool" where
  "is_space c =
     ((9 \<le> c \<and> c \<le> 13) \<or> (28 \<le> c \<and> c \<le> 32) \<or> c = 133 \<or> c = 160 \<or> c = 5760
      \<or> (8192 \<le> c \<and> c \<le> 8202) \<or> c = 8232 \<or> c = 8233 \<or> c = 8239 \<or> c = 8287 \<or> c = 12288)"

definition str_strip :: "ustr \<Rightarrow> ustr" where
  "str_strip s = rev (dropWhile is_space (rev (dropWhile is_space s)))"

text \<open>
  The pattern \<^verbatim>\<open>\n\s*\n+\<close>.  \<open>ws_then_nl\<close> is \<^verbatim>\<open>\s*\n+\<close>: the greedy \<^verbatim>\<open>\s*\<close> first takes
  the character and tries the rest; when that fails it stops here and \<^verbatim>\<open>\n+\<close> takes
  all the line feeds that follow.
\<close>

fun ws_then_nl :: "ustr \<Rightarrow> nat option" where
  "ws_then_nl [] = None"
| "ws_then_nl (c # cs) =
     (if is_space c
      then (case ws_then_nl cs of
              Some n \<Rightarrow> Some (Suc n)
            | None \<Rightarrow> if c = NL then Some (Suc (length (takeWhile (\<lambda>x. x = NL) cs))) else None)
      else None)"

definition match_blank :: matcher where
  "match_blank s =
     (case s of
        [] \<Rightarrow> None
      | c # cs \<Rightarrow> if c = NL then map_option (\<lambda>n. (Suc n, [])) (ws_then_nl cs) else None)"

text \<open>\<open>re.sub(pattern, repl, text)\<close> for a fixed replacement, and for the replacement \<^verbatim>\<open>\1\<close>.\<close>

definition re_sub_const :: "matcher \<Rightarrow> ustr \<Rightarrow> ustr \<Rightarrow> ustr" where
  "re_sub_const m repl text =
     concat (map (\<lambda>t. case t of Lit c \<Rightarrow> [c] | Match w g \<Rightarrow> repl) (re_scan m 0 text))"

definition re_sub_group1 :: "matcher \<Rightarrow> ustr \<Rightarrow> ustr" where
  "re_sub_group1 m text =
     concat (map (\<lambda>t. case t of Lit c \<Rightarrow> [c] | Match w g \<Rightarrow> g) (re_scan m 0 text))"

text \<open>The text \<open>plain_text\<close> that the \<open>except\<close> branch of \<open>get_openrouter_summary\<close> hands to the escaper.\<close>

definition strip_links :: "ustr \<Rightarrow> ustr" where
  "strip_links release_notes = re_sub_group1 match_md_link release_notes"

definition strip_markers :: "ustr \<Rightarrow> ustr" where
  "strip_markers text = re_sub_const (match_class (ascii ''*_`~#>'')) [] text"

definition collapse_blank :: "ustr \<Rightarrow> ustr" where
  "collapse_blank text = str_strip (re_sub_const match_blank [NL] text)"

definition truncate_500 :: "ustr \<Rightarrow> ustr" where
  "truncate_500 plain_text =
     (if length plain_text > 500 then take 497 plain_text @ ascii ''...'' else plain_text)"

definition fallback_plain :: "ustr \<Rightarrow> ustr" where
  "fallback_plain release_notes =
     truncate_500 (collapse_blank (strip_markers (strip_links release_notes)))"

section \<open>Outbound calls\<close>

text \<open>
  The release object of the release source, with the fields the task reads.
  \<open>body\<close> is \<open>None\<close> when the field is null.  A response whose JSON is not such an
  object makes the task raise; \<open>NotRelease msg\<close> stands for it, \<open>msg\<close> being the text of
  the exception.
\<close>

record release =
  rel_id :: int
  tag_name :: ustr
  html_url :: ustr
  published_at :: ustr
  prerelease :: bool
  body :: "ustr option"

datatype payload = Release release | NotRelease ustr

text \<open>
  An exception is either \<open>httpx.HTTPStatusError\<close>, which carries the response, or any
  other exception, of which only \<open>str(e)\<close> is used.
\<close>

datatype exn = HTTPStatusError nat payload | OtherError ustr

text \<open>
  What one request does: it returns a response with a status code and a content, or
  it raises (connection refused, timeout, DNS); \<open>Failure msg\<close> is the latter.
\<close>

datatype 'a outcome = Response nat 'a | Failure ustr

text \<open>The requests a task makes, in the order it makes them.\<close>

datatype event =
    is_Get: Get ustr          \<comment> \<open>GET of the latest release, with the URL\<close>
  | is_Head: Head ustr        \<comment> \<open>HEAD of the repository, with the URL\<close>
  | is_Chat: Chat ustr ustr   \<comment> \<open>chat completion, with the source text and the language\<close>
  | is_Post: Post ustr        \<comment> \<open>POST of one message to the notification sink, with its text\<close>

text \<open>
  Everything outside the program that a task depends on.  The \<open>k\<close>-th request of a kind
  gets the \<open>k\<close>-th outcome of that kind; a theorem about every \<open>env\<close> is a theorem about
  every behaviour of the three services.
\<close>

record env =
  uuid4_hex :: "nat \<Rightarrow> ustr"
  now_text :: ustr                           \<comment> \<open>\<open>datetime.now().strftime(...)\<close> of the error notification\<close>
  summary_language :: ustr                   \<comment> \<open>\<open>SUMMARY_LANGUAGE\<close>\<close>
  get_latest :: "nat \<Rightarrow> payload outcome"
  head_repo :: "payload outcome"
  chat_completion :: "nat \<Rightarrow> ustr outcome"  \<comment> \<open>the content of the first choice, or the error text\<close>
  telegram_post :: "nat \<Rightarrow> payload outcome"

record state =
  draws :: nat            \<comment> \<open>uuids drawn so far\<close>
  trace :: "event list"   \<comment> \<open>requests made so far\<close>

definition emit :: "event \<Rightarrow> state \<Rightarrow> state" where
  "emit ev st = st\<lparr>trace := trace st @ [ev]\<rparr>"

definition initial_state :: state where
  "initial_state = \<lparr>draws = 0, trace = []\<rparr>"

text \<open>\<open>response.raise_for_status()\<close> of httpx raises unless the status is 2xx.\<close>

definition raise_for_status :: "nat \<Rightarrow> payload \<Rightarrow> exn + unit" where
  "raise_for_status code p =
     (if 200 \<le> code \<and> code < 300 then Inr () else Inl (HTTPStatusError code p))"

text \<open>
  tenacity with \<open>stop_after_attempt(n)\<close>, \<open>reraise=True\<close> and a retry condition that holds
  for every \<open>Exception\<close> (the default of \<open>AsyncRetrying\<close>, and
  \<open>retry_if_exception_type((Exception,))\<close> of the decorator): \<open>retrying left f\<close> runs \<open>f\<close>
  and, when it raises, runs it again as long as retries are left; the last exception
  is raised again.  \<open>stop_after_attempt(3)\<close> is \<open>retrying 2\<close>.  The waits are not modelled.
\<close>

fun retrying :: "nat \<Rightarrow> (state \<Rightarrow> (exn + 'a) \<times> state) \<Rightarrow> state \<Rightarrow> (exn + 'a) \<times> state" where
  "retrying 0 f st = f st"
| "retrying (Suc left) f st =
     (case f st of
        (Inr x, st1) \<Rightarrow> (Inr x, st1)
      | (Inl e, st1) \<Rightarrow> retrying left f st1)"

section \<open>The summary call\<close>

definition NO_DESCRIPTION :: ustr where
  "NO_DESCRIPTION = [1053, 1077, 1090, 32, 1086, 1087, 1080, 1089, 1072, 1085, 1080, 1103, 46]"

definition TEXT_TRUNCATED :: ustr where
  "TEXT_TRUNCATED = [10, 10, 46, 46, 46, 32, 40, 1090, 1077, 1082, 1089, 1090, 32, 1086, 1073,
     1088, 1077, 1079, 1072, 1085, 41]"

definition EMPTY_ANSWER :: ustr where
  "EMPTY_ANSWER = [1055, 1091, 1089, 1090, 1086, 1081, 32, 1086, 1090, 1074, 1077, 1090, 32,
     1086, 1090, 32, 79, 112, 101, 110, 82, 111, 117, 116, 101, 114]"

text \<open>
  One run of the body of \<open>get_openrouter_summary_with_retry\<close>.  The client raises for
  a response that is not 2xx and for a transport failure.
\<close>

definition summary_attempt :: "env \<Rightarrow> ustr \<Rightarrow> ustr \<Rightarrow> state \<Rightarrow> (exn + ustr) \<times> state" where
  "summary_attempt e release_notes language st =
     (if release_notes = [] \<or> release_notes = NO_DESCRIPTION then (Inr NO_DESCRIPTION, st)
      else
        let notes = (if length release_notes > 4000
                     then take 4000 release_notes @ TEXT_TRUNCATED else release_notes);
            k = length (filter is_Chat (trace st));
            st1 = emit (Chat notes language) st
        in case chat_completion e k of
             Failure msg \<Rightarrow> (Inl (OtherError msg), st1)
           | Response code content \<Rightarrow>
               if \<not> (200 \<le> code \<and> code < 300) then (Inl (OtherError content), st1)
               else
                 let summary = str_strip content
                 in if summary \<noteq> [] \<and> length summary > 10
                    then (Inr (convert_ai_markdown_to_telegram summary), st1)
                    else (Inl (OtherError EMPTY_ANSWER), st1))"

definition get_openrouter_summary_with_retry ::
    "env \<Rightarrow> ustr \<Rightarrow> ustr \<Rightarrow> state \<Rightarrow> (exn + ustr) \<times> state" where
  "get_openrouter_summary_with_retry e release_notes language =
     retrying 2 (summary_attempt e release_notes language)"

definition get_openrouter_summary :: "env \<Rightarrow> ustr \<Rightarrow> ustr \<Rightarrow> state \<Rightarrow> ustr \<times> state" where
  "get_openrouter_summary e release_notes language st =
     (case get_openrouter_summary_with_retry e release_notes language st of
        (Inr summary, st1) \<Rightarrow> (summary, st1)
      | (Inl ex, st1) \<Rightarrow>
          (let (escaped, d) = escape_markdown_v2 (uuid4_hex e) (draws st1) (fallback_plain release_notes)
           in (escaped, st1\<lparr>draws := d\<rparr>)))"

section \<open>Notification sink\<close>

fun post_chunks :: "env \<Rightarrow> ustr list \<Rightarrow> state \<Rightarrow> (exn + unit) \<times> state" where
  "post_chunks e [] st = (Inr (), st)"
| "post_chunks e (chunk # cs) st =
     (let k = length (filter is_Post (trace st));
          st1 = emit (Post chunk) st
      in case telegram_post e k of
           Failure msg \<Rightarrow> (Inl (OtherError msg), st1)
         | Response code p \<Rightarrow>
             (case raise_for_status code p of
                Inl ex \<Rightarrow> (Inl ex, st1)
              | Inr u \<Rightarrow> post_chunks e cs st1))"

definition send_telegram_message :: "env \<Rightarrow> ustr \<Rightarrow> state \<Rightarrow> (exn + unit) \<times> state" where
  "send_telegram_message e message st =
     (let (message_chunks, d) =
            split_message_markdown (uuid4_hex e) (draws st) message TELEGRAM_MAX_MESSAGE_LENGTH
      in post_chunks e message_chunks (st\<lparr>draws := d\<rparr>))"

definition ERROR_HEADER :: ustr where
  "ERROR_HEADER = [9888, 65039, 32, 42, 1054, 1096, 1080, 1073, 1082, 1072, 32, 1084, 1086, 1085,
     1080, 1090, 1086, 1088, 1080, 1085, 1075, 1072, 32, 71, 105, 116, 72, 117, 98, 42, 10, 10]"

definition TIME_LABEL :: ustr where
  "TIME_LABEL = [1042, 1088, 1077, 1084, 1103, 58, 32]"

text \<open>\<open>send_error_notification\<close> catches every exception of the send, so it only changes the state.\<close>

definition error_message :: "env \<Rightarrow> ustr \<Rightarrow> state \<Rightarrow> ustr \<times> state" where
  "error_message e error_msg st =
     (let (m, d1) = escape_markdown_v2 (uuid4_hex e) (draws st) error_msg;
          (t, d2) = escape_markdown_v2 (uuid4_hex e) d1 (now_text e)
      in (ERROR_HEADER @ [BTICK] @ m @ [BTICK, NL, NL] @ TIME_LABEL @ t, st\<lparr>draws := d2\<rparr>))"

definition send_error_notification :: "env \<Rightarrow> ustr \<Rightarrow> state \<Rightarrow> state" where
  "send_error_notification e error_msg st =
     (let (message, st1) = error_message e error_msg st
      in snd (send_telegram_message e message st1))"

section \<open>Repository task: \<open>check_repo_for_updates\<close>\<close>

definition releases_url :: "ustr \<Rightarrow> ustr" where
  "releases_url repo_path =
     ascii ''https://api.github.com/repos/'' @ repo_path @ ascii ''/releases/latest''"

definition repo_check_url :: "ustr \<Rightarrow> ustr" where
  "repo_check_url repo_path = ascii ''https://api.github.com/repos/'' @ repo_path"

text \<open>One pass of the body of the retry loop.\<close>

definition fetch_attempt :: "env \<Rightarrow> ustr \<Rightarrow> state \<Rightarrow> (exn + nat \<times> payload) \<times> state" where
  "fetch_attempt e url st =
     (let k = length (filter is_Get (trace st));
          st1 = emit (Get url) st
      in case get_latest e k of
           Failure msg \<Rightarrow> (Inl (OtherError msg), st1)
         | Response code p \<Rightarrow>
             if code \<ge> 500
             then (case raise_for_status code p of
                     Inl ex \<Rightarrow> (Inl ex, st1)
                   | Inr u \<Rightarrow> (Inr (code, p), st1))
             else (Inr (code, p), st1))"

text \<open>
  The inner \<open>try\<close>: the retry loop and its two handlers.  The first handler keeps the
  response of an \<open>HTTPStatusError\<close> below 500 and raises the others again; the second
  raises again.
\<close>

definition fetch_latest :: "env \<Rightarrow> ustr \<Rightarrow> state \<Rightarrow> (exn + nat \<times> payload) \<times> state" where
  "fetch_latest e url st =
     (case retrying 2 (fetch_attempt e url) st of
        (Inr response, st1) \<Rightarrow> (Inr response, st1)
      | (Inl (HTTPStatusError code p), st1) \<Rightarrow>
          if code < 500 then (Inr (code, p), st1) else (Inl (HTTPStatusError code p), st1)
      | (Inl (OtherError msg), st1) \<Rightarrow> (Inl (OtherError msg), st1))"

definition MSG_TITLE :: ustr where
  "MSG_TITLE = [127881, 32, 42, 78, 101, 119, 32, 82, 101, 108, 101, 97, 115, 101, 58, 32]"

definition MSG_VERSION :: ustr where
  "MSG_VERSION = [128230, 32, 86, 101, 114, 115, 105, 111, 110, 58, 32, 96]"

definition PRE_RELEASE :: ustr where
  "PRE_RELEASE = [129514, 32, 80, 82, 69, 92, 45, 82, 69, 76, 69, 65, 83, 69]"

definition MSG_DATE :: ustr where
  "MSG_DATE = [128197, 32, 68, 97, 116, 101, 58, 32]"

definition MSG_RULE :: ustr where
  "MSG_RULE = replicate 18 9473"

definition MSG_LINK :: ustr where
  "MSG_LINK = [91, 128214, 32, 70, 117, 108, 108, 32, 99, 104, 97, 110, 103, 101, 108, 111,
     103, 93, 40]"

definition build_message :: "env \<Rightarrow> ustr \<Rightarrow> release \<Rightarrow> ustr \<Rightarrow> state \<Rightarrow> ustr \<times> state" where
  "build_message e repo_name r openrouter_summary st =
     (let prerelease_tag = (if prerelease r then PRE_RELEASE else []);
          (n, d1) = escape_markdown_v2 (uuid4_hex e) (draws st) repo_name;
          (v, d2) = escape_markdown_v2 (uuid4_hex e) d1 (tag_name r);
          (t, d3) = escape_markdown_v2 (uuid4_hex e) d2 (take 10 (published_at r))
      in (MSG_TITLE @ n @ [STAR, NL]
            @ MSG_VERSION @ v @ [BTICK, 32] @ prerelease_tag @ [NL]
            @ MSG_DATE @ t @ [NL]
            @ MSG_RULE @ [NL, NL]
            @ openrouter_summary @ [NL, NL]
            @ MSG_RULE @ [NL]
            @ MSG_LINK @ html_url r @ [RPAR],
          st\<lparr>draws := d3\<rparr>))"

text \<open>From \<open>response.json()\<close> to \<open>return release_id\<close>.\<close>

definition announce :: "env \<Rightarrow> ustr \<Rightarrow> int option \<Rightarrow> payload \<Rightarrow> state \<Rightarrow> (exn + int option) \<times> state" where
  "announce e repo_name last_seen_id p st =
     (case p of
        NotRelease msg \<Rightarrow> (Inl (OtherError msg), st)
      | Release r \<Rightarrow>
          (if Some (rel_id r) = last_seen_id then (Inr None, st)
           else
            let original_body = (case body r of
                                   None \<Rightarrow> NO_DESCRIPTION
                                 | Some b \<Rightarrow> if b = [] then NO_DESCRIPTION else b);
                (openrouter_summary, st1) =
                   get_openrouter_summary e original_body (summary_language e) st;
                (message, st2) = build_message e repo_name r openrouter_summary st1
            in case send_telegram_message e message st2 of
                 (Inl ex, st3) \<Rightarrow> (Inl ex, st3)
               | (Inr u, st3) \<Rightarrow> (Inr (Some (rel_id r)), st3)))"

text \<open>The body of the outer \<open>try\<close>.\<close>

definition try_check :: "env \<Rightarrow> ustr \<Rightarrow> ustr \<Rightarrow> int option \<Rightarrow> state \<Rightarrow> (exn + int option) \<times> state" where
  "try_check e repo_name repo_path last_seen_id st =
     (case fetch_latest e (releases_url repo_path) st of
        (Inl ex, st1) \<Rightarrow> (Inl ex, st1)
      | (Inr (code, p), st1) \<Rightarrow>
          (case raise_for_status code p of
             Inl ex \<Rightarrow> (Inl ex, st1)
           | Inr u \<Rightarrow> announce e repo_name last_seen_id p st1))"

definition not_found_text :: "ustr \<Rightarrow> ustr \<Rightarrow> ustr" where
  "not_found_text repo_name repo_path =
     [1056, 1077, 1087, 1086, 1079, 1080, 1090, 1086, 1088, 1080, 1081, 32] @ repo_name
       @ ascii '' ('' @ repo_path @ ascii '')''
       @ [32, 1085, 1077, 32, 1085, 1072, 1081, 1076, 1077, 1085]"

definition check_failed_text :: "ustr \<Rightarrow> ustr \<Rightarrow> ustr" where
  "check_failed_text repo_name msg =
     [1054, 1096, 1080, 1073, 1082, 1072, 32, 1087, 1088, 1080, 32, 1087, 1088, 1086, 1074,
      1077, 1088, 1082, 1077, 32] @ repo_name @ ascii '': '' @ msg"

text \<open>
  The task with its two outer handlers.  It catches every exception, so it returns the
  new release id or \<open>None\<close>.  Statuses 403 and the rest of the status errors are only
  logged.
\<close>

definition check_repo_for_updates ::
    "env \<Rightarrow> ustr \<Rightarrow> ustr \<Rightarrow> int option \<Rightarrow> state \<Rightarrow> int option \<times> state" where
  "check_repo_for_updates e repo_name repo_path last_seen_id st =
     (case try_check e repo_name repo_path last_seen_id st of
        (Inr result, st1) \<Rightarrow> (result, st1)
      | (Inl (HTTPStatusError code p), st1) \<Rightarrow>
          if code = 404
          then (let st2 = emit (Head (repo_check_url repo_path)) st1
                in case head_repo e of
                     Response hc hp \<Rightarrow>
                       if hc = 200 then (None, st2)
                       else (None, send_error_notification e (not_found_text repo_name repo_path) st2)
                   | Failure msg \<Rightarrow>
                       (None, send_error_notification e (not_found_text repo_name repo_path) st2))
          else if code = 403 then (None, st1)
          else (None, st1)
      | (Inl (OtherError msg), st1) \<Rightarrow>
          (None, send_error_notification e (check_failed_text repo_name msg) st1))"

section \<open>Coordinator: \<open>main\<close>\<close>

text \<open>
  The repositories are the items of a dictionary, so their names are distinct.  Every
  task reads the state loaded at the start and has an environment and a trace of its
  own; the interleaving of the tasks is not modelled.  A task never raises, so the
  branch of the coordinator for a result that is an exception is never taken.
  \<open>elif result:\<close> holds for a result that is neither \<open>None\<close> nor \<open>0\<close>.
\<close>

definition run_task ::
    "(ustr \<Rightarrow> env) \<Rightarrow> (ustr \<rightharpoonup> int) \<Rightarrow> ustr \<times> ustr \<Rightarrow> ustr \<times> int option \<times> event list" where
  "run_task envs current_state = (\<lambda>(repo_name, repo_path).
     let (result, st) = check_repo_for_updates (envs repo_name) repo_name repo_path
                          (current_state repo_name) initial_state
     in (repo_name, result, trace st))"

definition truthy :: "int option \<Rightarrow> bool" where
  "truthy result = (case result of None \<Rightarrow> False | Some i \<Rightarrow> i \<noteq> 0)"

fun commit_results ::
    "(ustr \<rightharpoonup> int) \<Rightarrow> (ustr \<times> int option \<times> event list) list \<Rightarrow> (ustr \<rightharpoonup> int)" where
  "commit_results new_state [] = new_state"
| "commit_results new_state ((repo_name, result, tr) # rs) =
     commit_results (if truthy result then new_state(repo_name := result) else new_state) rs"

text \<open>The state that is saved and, for every repository, the result and the requests of its task.\<close>

definition main :: "(ustr \<Rightarrow> env) \<Rightarrow> (ustr \<times> ustr) list \<Rightarrow> (ustr \<rightharpoonup> int)
    \<Rightarrow> (ustr \<rightharpoonup> int) \<times> (ustr \<times> int option \<times> event list) list" where
  "main envs repos_to_monitor current_state =
     (if repos_to_monitor = [] then (current_state, [])
      else
        let results = map (run_task envs current_state) repos_to_monitor
        in (commit_results current_state results, results))"

section \<open>Notions used in the statements\<close>

text \<open>The escaper's link pattern finds a match in the text.\<close>

definition has_md_link :: "ustr \<Rightarrow> bool" where
  "has_md_link text = (filter is_Match (re_scan match_md_link 0 text) \<noteq> [])"

text \<open>
  The chunks before any indicator is appended: the whole text when it fits, the list
  \<open>chunks\<close> of the chunker otherwise.
\<close>

definition chunk_bodies :: "ustr \<Rightarrow> int \<Rightarrow> ustr list" where
  "chunk_bodies text max_length =
     (if int (length text) \<le> max_length then [text] else split_chunks text max_length)"

text \<open>
  What the claim says a part indicator is: a blank line, then the escaped text
  of the indicator (see \<open>part_label\<close>) between two underscores.
\<close>

definition part_indicator :: "nat \<Rightarrow> nat \<Rightarrow> ustr" where
  "part_indicator i n =
     [NL, NL, USCORE, BSL, LPAR] @ [1095, 1072, 1089, 1090, 1100, 32] @ dec i @ ascii ''/'' @ dec n
       @ [BSL, RPAR, USCORE]"

text \<open>An outcome of the release fetch that the retry loop retries: a transport failure or a 5xx.\<close>

definition retryable :: "payload outcome \<Rightarrow> bool" where
  "retryable out = (case out of Failure msg \<Rightarrow> True | Response code p \<Rightarrow> code \<ge> 500)"

text \<open>
  An outcome of the chat completion on which the body of the summary call raises: a
  transport failure, a status that is not 2xx, or a content of at most 10 characters
  once stripped.
\<close>

definition chat_fails :: "ustr outcome \<Rightarrow> bool" where
  "chat_fails out =
     (case out of
        Failure msg \<Rightarrow> True
      | Response code content \<Rightarrow>
          \<not> (200 \<le> code \<and> code < 300) \<or> length (str_strip content) \<le> 10)"

text \<open>The chunks \<open>send_telegram_message\<close> posts for a message, one after the other.\<close>

definition sent_chunks :: "env \<Rightarrow> ustr \<Rightarrow> state \<Rightarrow> ustr list" where
  "sent_chunks e message st =
     fst (split_message_markdown (uuid4_hex e) (draws st) message TELEGRAM_MAX_MESSAGE_LENGTH)"

text \<open>The chunks of the error notification for the text \<open>error_msg\<close>.\<close>

definition error_chunks :: "env \<Rightarrow> ustr \<Rightarrow> state \<Rightarrow> ustr list" where
  "error_chunks e error_msg st =
     (let (message, st1) = error_message e error_msg st in sent_chunks e message st1)"


text \<open>
  An environment in which every release fetch has the outcome \<open>g\<close>, every chat
  completion the outcome \<open>c\<close> and every post the outcome \<open>t\<close>, and the repository
  exists.
\<close>

definition constant_env :: "payload outcome \<Rightarrow> ustr outcome \<Rightarrow> payload outcome \<Rightarrow> env" where
  "constant_env g c t =
     \<lparr>uuid4_hex = (\<lambda>k. []), now_text = ascii ''2024-01-01 00:00:00'', summary_language = ascii ''en'',
      get_latest = (\<lambda>k. g), head_repo = Response 200 (NotRelease []),
      chat_completion = (\<lambda>k. c), telegram_post = (\<lambda>k. t)\<rparr>"

text \<open>A release with the id \<open>i\<close> and no description, for the examples.\<close>

definition sample_release :: "int \<Rightarrow> release" where
  "sample_release i =
     \<lparr>rel_id = i, tag_name = ascii ''v1.0'', html_url = ascii ''https://github.com/o/r/releases/1'',
      published_at = ascii ''2024-01-01T00:00:00Z'', prerelease = False, body = None\<rparr>"

text \<open>
  \<open>weave seps bodies\<close> is the text made of the separators and the bodies in turn: the
  first separator, the first body, the second separator, and so on to the last
  separator.
\<close>

fun weave :: "ustr list \<Rightarrow> ustr list \<Rightarrow> ustr" where
  "weave seps [] = concat seps"
| "weave [] (b # bs) = b @ weave [] bs"
| "weave (s # seps) (b # bs) = s @ b @ weave seps bs"

text \<open>
  The invariant of the two loops of the chunker: the text read so far is the chunks
  with line feeds before, between and after them, followed by the current chunk.
\<close>

definition packed :: "ustr list \<Rightarrow> ustr \<Rightarrow> ustr \<Rightarrow> bool" where
  "packed chunks current_chunk t =
     (\<exists>seps. length seps = Suc (length chunks) \<and> set (concat seps) \<subseteq> {NL}
        \<and> t = weave seps chunks @ current_chunk)"

text \<open>The existence check answered 200.\<close>

definition repo_exists :: "payload outcome \<Rightarrow> bool" where
  "repo_exists out = (case out of Failure msg \<Rightarrow> False | Response code p \<Rightarrow> code = 200)"

text \<open>The text \<open>s\<close> with a backslash before each of its characters that the escaper escapes.\<close>

definition backslashed :: "ustr \<Rightarrow> ustr" where
  "backslashed s = concat (map (\<lambda>c. if c \<in> set escape_chars_v2 then [BSL, c] else [c]) s)"

section \<open>Properties of the dialect converter\<close>

text \<open>
  C1.  The claim says that the placeholders pass the escaping step unchanged, so that
  every extracted span is put back and no placeholder is left.  The placeholders
  \<open>LINK_PH_i\<close>, \<open>BOLD_PH_i\<close> and \<open>CODE_PH_i\<close> contain the underscore, which is in the
  list of characters the loop escapes.  For the input \<open>[A](https://x)\<close> the converter
  returns the escaped placeholder \<^verbatim>\<open>LINK\_PH\_0\<close>: the link is not restored.
\<close>

theorem convert_link_not_restored:
  "convert_ai_markdown_to_telegram (ascii ''[A](https://x)'')
     = ascii ''LINK'' @ [BSL, USCORE] @ ascii ''PH'' @ [BSL, USCORE] @ ascii ''0''"
  by code_simp

section \<open>Properties of the escaping functions\<close>

lemma re_scan_all_Lit:
  "\<forall>t \<in> set (re_scan m 0 s). \<not> is_Match t \<Longrightarrow> re_scan m 0 s = map Lit s"
proof (induction s)
  case Nil
  then show ?case by simp
next
  case (Cons c cs)
  then show ?case by (cases "m (c # cs)") (auto split: prod.splits)
qed

lemma re_scan_class:
  "re_scan (match_class cls) 0 s = map (\<lambda>c. if c \<in> set cls then Match [c] [c] else Lit c) s"
  by (induction s) (simp_all add: match_class_def)

lemma re_sub_escape_eq:
  "re_sub_escape cls s = concat (map (\<lambda>c. if c \<in> set cls then [BSL, c] else [c]) s)"
  unfolding re_sub_escape_def re_scan_class
  by (induction s) simp_all

lemma re_sub_uuid_Lit: "re_sub_uuid uu d (map Lit s) = (s, [])"
  by (induction s) simp_all

lemma escape_markdown_v2_no_link:
  assumes "\<forall>t \<in> set (re_scan match_md_link 0 text). \<not> is_Match t"
  shows "escape_markdown_v2 uu d text = (re_sub_escape escape_chars_v2 text, d)"
proof (cases "text = []")
  case True
  then show ?thesis by (simp add: escape_markdown_v2_def re_sub_escape_def)
next
  case False
  then show ?thesis
    by (simp add: escape_markdown_v2_def re_scan_all_Lit[OF assms] re_sub_uuid_Lit)
qed

lemma escape_loop_eq:
  "escape_loop s = concat (map (\<lambda>c. if c \<in> set escape_chars_ai then [BSL, c] else [c]) s)"
  by (induction s) simp_all

text \<open>Inserting a marker \<open>b\<close> before the characters that satisfy \<open>P\<close>.\<close>

lemma ins_filter:
  "filter (\<lambda>c. c \<noteq> b) (concat (map (\<lambda>c. if P c then [b, c] else [c]) s)) = filter (\<lambda>c. c \<noteq> b) s"
  by (induction s) simp_all

lemma ins_length:
  "length (concat (map (\<lambda>c. if P c then [b, c] else [c]) s)) = length s + length (filter P s)"
  by (induction s) simp_all

lemma ins_preceded:
  assumes "j < length (concat (map (\<lambda>c. if P c then [b, c] else [c]) s))"
    and "Q (concat (map (\<lambda>c. if P c then [b, c] else [c]) s) ! j)"
    and "\<not> Q b" and "\<And>c. Q c \<Longrightarrow> P c"
  shows "0 < j \<and> concat (map (\<lambda>c. if P c then [b, c] else [c]) s) ! (j - 1) = b"
  using assms
proof (induction s arbitrary: j)
  case Nil
  then show ?case by simp
next
  case (Cons c cs)
  let ?r = "concat (map (\<lambda>c. if P c then [b, c] else [c]) cs)"
  show ?case
  proof (cases "P c")
    case True
    then have eq: "concat (map (\<lambda>c. if P c then [b, c] else [c]) (c # cs)) = b # c # ?r" by simp
    show ?thesis
    proof (cases j)
      case 0
      with Cons.prems eq show ?thesis by simp
    next
      case (Suc k)
      show ?thesis
      proof (cases k)
        case 0
        with Suc eq show ?thesis by simp
      next
        case (Suc i)
        with \<open>j = Suc k\<close> Cons.prems eq have "i < length ?r" "Q (?r ! i)" by simp_all
        from Cons.IH[OF this Cons.prems(3,4)] have "0 < i" "?r ! (i - 1) = b" by simp_all
        with Suc \<open>j = Suc k\<close> eq show ?thesis by (cases i) simp_all
      qed
    qed
  next
    case False
    then have eq: "concat (map (\<lambda>c. if P c then [b, c] else [c]) (c # cs)) = c # ?r" by simp
    show ?thesis
    proof (cases j)
      case 0
      with Cons.prems eq False show ?thesis by auto
    next
      case (Suc k)
      with Cons.prems eq have "k < length ?r" "Q (?r ! k)" by simp_all
      from Cons.IH[OF this Cons.prems(3,4)] have "0 < k" "?r ! (k - 1) = b" by simp_all
      with Suc eq show ?thesis by (cases k) simp_all
    qed
  qed
qed


lemma set_escape_chars_v2: "set escape_chars_v2 = insert BSL (set escape_chars_ai)"
  by (simp add: escape_chars_v2_def escape_chars_ai_def)

lemma BSL_not_reserved: "BSL \<notin> set escape_chars_ai"
  by (simp add: escape_chars_ai_def ascii_def)

text \<open>
  C2 (as amended).  The character loop of the converter puts one backslash before
  every character of the reserved set \<open>escape_chars_ai\<close> and changes nothing else: every
  reserved character of the output follows a backslash, the output without its
  backslashes is the input without its backslashes, and the output is longer than the
  input by the number of reserved characters.  The escaper \<open>escape_markdown_v2\<close> has the
  backslash in its class as well: on a text in which its link pattern finds no match
  it puts one backslash before every reserved character and before every backslash.
\<close>

theorem escaping_inserts_one_marker:
  "(let out = escape_loop text in
      (\<forall>j < length out. out ! j \<in> set escape_chars_ai \<longrightarrow> 0 < j \<and> out ! (j - 1) = BSL)
      \<and> filter (\<lambda>c. c \<noteq> BSL) out = filter (\<lambda>c. c \<noteq> BSL) text
      \<and> length out = length text + length (filter (\<lambda>c. c \<in> set escape_chars_ai) text))
   \<and> (\<not> has_md_link text \<longrightarrow>
       (let out = fst (escape_markdown_v2 uu d text) in
          (\<forall>j < length out. out ! j \<in> set escape_chars_ai \<longrightarrow> 0 < j \<and> out ! (j - 1) = BSL)
          \<and> filter (\<lambda>c. c \<noteq> BSL) out = filter (\<lambda>c. c \<noteq> BSL) text
          \<and> length out = length text + length (filter (\<lambda>c. c \<in> set escape_chars_v2) text)))"
proof -
  have loop: "\<forall>j < length (escape_loop text).
      escape_loop text ! j \<in> set escape_chars_ai \<longrightarrow> 0 < j \<and> escape_loop text ! (j - 1) = BSL"
    unfolding escape_loop_eq
    using ins_preceded[where Q = "\<lambda>c. c \<in> set escape_chars_ai" and P = "\<lambda>c. c \<in> set escape_chars_ai"]
      BSL_not_reserved by blast
  have v2: "\<forall>j < length (re_sub_escape escape_chars_v2 text).
      re_sub_escape escape_chars_v2 text ! j \<in> set escape_chars_ai
        \<longrightarrow> 0 < j \<and> re_sub_escape escape_chars_v2 text ! (j - 1) = BSL"
    unfolding re_sub_escape_eq
    using ins_preceded[where Q = "\<lambda>c. c \<in> set escape_chars_ai" and P = "\<lambda>c. c \<in> set escape_chars_v2"]
      BSL_not_reserved set_escape_chars_v2 by blast
  have nolink: "\<not> has_md_link text \<Longrightarrow>
      fst (escape_markdown_v2 uu d text) = re_sub_escape escape_chars_v2 text"
    using escape_markdown_v2_no_link[of "text" uu d]
    by (simp add: has_md_link_def filter_empty_conv)
  have l2: "filter (\<lambda>c. c \<noteq> BSL) (escape_loop text) = filter (\<lambda>c. c \<noteq> BSL) text"
    by (simp only: escape_loop_eq ins_filter)
  have l3: "length (escape_loop text)
      = length text + length (filter (\<lambda>c. c \<in> set escape_chars_ai) text)"
    by (simp only: escape_loop_eq ins_length)
  have v3: "filter (\<lambda>c. c \<noteq> BSL) (re_sub_escape escape_chars_v2 text) = filter (\<lambda>c. c \<noteq> BSL) text"
    by (simp only: re_sub_escape_eq ins_filter)
  have v4: "length (re_sub_escape escape_chars_v2 text)
      = length text + length (filter (\<lambda>c. c \<in> set escape_chars_v2) text)"
    by (simp only: re_sub_escape_eq ins_length)
  show ?thesis
    unfolding Let_def
  proof (intro conjI impI)
    show "\<forall>j<length (escape_loop text).
       escape_loop text ! j \<in> set escape_chars_ai \<longrightarrow> 0 < j \<and> escape_loop text ! (j - 1) = BSL"
      by (rule loop)
  next
    show "filter (\<lambda>c. c \<noteq> BSL) (escape_loop text) = filter (\<lambda>c. c \<noteq> BSL) text" by (rule l2)
  next
    show "length (escape_loop text)
      = length text + length (filter (\<lambda>c. c \<in> set escape_chars_ai) text)" by (rule l3)
  next
    assume h: "\<not> has_md_link text"
    show "\<forall>j<length (fst (escape_markdown_v2 uu d text)).
       fst (escape_markdown_v2 uu d text) ! j \<in> set escape_chars_ai
         \<longrightarrow> 0 < j \<and> fst (escape_markdown_v2 uu d text) ! (j - 1) = BSL"
      unfolding nolink[OF h] by (rule v2)
  next
    assume h: "\<not> has_md_link text"
    show "filter (\<lambda>c. c \<noteq> BSL) (fst (escape_markdown_v2 uu d text)) = filter (\<lambda>c. c \<noteq> BSL) text"
      unfolding nolink[OF h] by (rule v3)
  next
    assume h: "\<not> has_md_link text"
    show "length (fst (escape_markdown_v2 uu d text))
      = length text + length (filter (\<lambda>c. c \<in> set escape_chars_v2) text)"
      unfolding nolink[OF h] by (rule v4)
  qed
qed

theorem escaping_inserts_one_marker_witness:
  "\<not> has_md_link (ascii ''a.b'')
   \<and> escape_loop (ascii ''a.b'') ! 1 = BSL
   \<and> fst (escape_markdown_v2 (\<lambda>k. []) 0 (ascii ''a.b'')) ! 1 = BSL"
proof -
  let ?t = "ascii ''a.b''"
  let ?o1 = "escape_loop ?t"
  let ?o2 = "fst (escape_markdown_v2 (\<lambda>k. []) 0 ?t)"
  have h: "\<not> has_md_link ?t" by code_simp
  have a: "2 < length ?o1" "?o1 ! 2 \<in> set escape_chars_ai" by code_simp+
  have b: "2 < length ?o2" "?o2 ! 2 \<in> set escape_chars_ai" by code_simp+
  note T = escaping_inserts_one_marker[of ?t "\<lambda>k. []" 0, unfolded Let_def]
  from T have "\<forall>j < length ?o1. ?o1 ! j \<in> set escape_chars_ai \<longrightarrow> 0 < j \<and> ?o1 ! (j - 1) = BSL"
    by (rule conjunct1[OF conjunct1])
  with a have 1: "?o1 ! (2 - 1) = BSL" by blast
  from T h have "\<forall>j < length ?o2. ?o2 ! j \<in> set escape_chars_ai \<longrightarrow> 0 < j \<and> ?o2 ! (j - 1) = BSL"
    by blast
  with b have 2: "?o2 ! (2 - 1) = BSL" by blast
  have "(2::nat) - 1 = 1" by simp
  with 1 2 h show ?thesis by metis
qed

text \<open>
  C2 as stated fails: the backslash is not in the reserved set of the claim, and the
  escaper alters it.
\<close>

theorem escaper_escapes_backslash:
  "fst (escape_markdown_v2 (\<lambda>k. []) 0 [BSL]) = [BSL, BSL] \<and> BSL \<notin> set escape_chars_ai"
  by code_simp

section \<open>Properties of the chunker\<close>

lemma split_tokens_filter:
  "filter P (concat (split_tokens ts))
     = filter P (concat (map (\<lambda>t. case t of Lit c \<Rightarrow> [c] | Match w g \<Rightarrow> []) ts))"
proof (induction ts)
  case Nil
  then show ?case by simp
next
  case (Cons t ts)
  then show ?case by (cases t; cases "split_tokens ts") auto
qed

lemma re_scan_literal_filter:
  assumes "sep \<noteq> []" and "filter P sep = []"
  shows "filter P (concat (map (\<lambda>t. case t of Lit c \<Rightarrow> [c] | Match w g \<Rightarrow> [])
                              (re_scan (match_literal sep) k s)))
           = filter P (drop k s)"
proof (induction s arbitrary: k)
  case Nil
  then show ?case by simp
next
  case (Cons c cs)
  show ?case
  proof (cases k)
    case (Suc k')
    then show ?thesis using Cons.IH by simp
  next
    case 0
    show ?thesis
    proof (cases "take (length sep) (c # cs) = sep")
      case False
      then show ?thesis using 0 Cons.IH[of 0] by (simp add: match_literal_def)
    next
      case True
      have "c # cs = take (length sep) (c # cs) @ drop (length sep) (c # cs)" by simp
      then have "filter P (c # cs) = filter P sep @ filter P (drop (length sep) (c # cs))"
        using True by (metis filter_append)
      moreover have "drop (length sep) (c # cs) = drop (length sep - 1) cs"
        using assms(1) by (cases sep) simp_all
      ultimately have "filter P (c # cs) = filter P (drop (length sep - 1) cs)"
        using assms(2) by simp
      then show ?thesis using 0 True Cons.IH[of "length sep - 1"]
        by (simp add: match_literal_def)
    qed
  qed
qed

lemma str_split_filter:
  assumes "sep \<noteq> []" and "filter P sep = []"
  shows "filter P (concat (str_split sep s)) = filter P s"
  using re_scan_literal_filter[OF assms, of 0 s]
  by (simp add: str_split_def split_tokens_filter)

lemma pack_lines_filter:
  "filter (\<lambda>c. c \<noteq> NL) (concat (fst (pack_lines ml ls (chunks, cur))) @ snd (pack_lines ml ls (chunks, cur)))
     = filter (\<lambda>c. c \<noteq> NL) (concat chunks @ cur @ concat ls)"
  by (induction ls arbitrary: chunks cur) simp_all

lemma pack_paragraphs_filter:
  "filter (\<lambda>c. c \<noteq> NL) (concat (fst (pack_paragraphs ml ps (chunks, cur))) @ snd (pack_paragraphs ml ps (chunks, cur)))
     = filter (\<lambda>c. c \<noteq> NL) (concat chunks @ cur @ concat ps)"
proof (induction ps arbitrary: chunks cur)
  case Nil
  then show ?case by simp
next
  case (Cons p ps)
  let ?P = "\<lambda>c::nat. c \<noteq> NL"
  have sp: "filter ?P (concat (str_split [NL] p)) = filter ?P p"
    by (intro str_split_filter) simp_all
  obtain ch' cur' where pl: "pack_lines ml (str_split [NL] p) (chunks, cur) = (ch', cur')"
    by (cases "pack_lines ml (str_split [NL] p) (chunks, cur)")
  have "filter ?P (concat ch' @ cur') = filter ?P (concat chunks @ cur @ concat (str_split [NL] p))"
    using pack_lines_filter[of ml "str_split [NL] p" chunks cur] pl by simp
  then have pl': "filter ?P (concat ch' @ cur') = filter ?P (concat chunks @ cur) @ filter ?P p"
    using sp by simp
  show ?case
  proof (cases "int (length cur) + int (length p) + 2 \<le> ml")
    case True
    then show ?thesis
      using Cons.IH[of chunks "(if cur \<noteq> [] then cur @ [NL, NL] else cur) @ p"] by simp
  next
    case False
    show ?thesis
    proof (cases "cur = []")
      case False
      with \<open>\<not> int (length cur) + int (length p) + 2 \<le> ml\<close> show ?thesis
        using Cons.IH[of "chunks @ [cur]" p] by simp
    next
      case True
      with False have "pack_paragraphs ml (p # ps) (chunks, cur) = pack_paragraphs ml ps (ch', cur')"
        using pl by simp
      then show ?thesis
        using Cons.IH[of ch' cur'] pl' True by simp
    qed
  qed
qed

lemma split_chunks_filter:
  "filter (\<lambda>c. c \<noteq> NL) (concat (split_chunks s ml)) = filter (\<lambda>c. c \<noteq> NL) s"
proof -
  let ?P = "\<lambda>c::nat. c \<noteq> NL"
  obtain ch cur where pp: "pack_paragraphs ml (str_split [NL, NL] s) ([], []) = (ch, cur)"
    by (cases "pack_paragraphs ml (str_split [NL, NL] s) ([], [])")
  have "filter ?P (concat ch @ cur) = filter ?P (concat (str_split [NL, NL] s))"
    using pack_paragraphs_filter[of ml "str_split [NL, NL] s" "[]" "[]"] pp by simp
  also have "\<dots> = filter ?P s" by (intro str_split_filter) simp_all
  finally show ?thesis using pp by (auto simp: split_chunks_def)
qed

lemma dec_digits: "set (dec n) \<subseteq> {48..57}"
proof (induction n rule: dec.induct)
  case (1 n)
  show ?case
  proof (cases "n < 10")
    case True
    then show ?thesis by (subst dec.simps) auto
  next
    case False
    have "n mod 10 < 10" by simp
    then have "48 + n mod 10 \<in> {48..57}" by auto
    with False 1 show ?thesis by (subst dec.simps) auto
  qed
qed

lemma re_scan_no_bracket:
  "LBR \<notin> set s \<Longrightarrow> re_scan match_md_link 0 s = map Lit s"
  by (induction s) (auto simp: match_md_link_def)

lemma escape_plain:
  "set s \<inter> set escape_chars_v2 = {} \<Longrightarrow> re_sub_escape escape_chars_v2 s = s"
  unfolding re_sub_escape_eq by (induction s) auto

lemma re_sub_escape_append:
  "re_sub_escape cls (a @ b) = re_sub_escape cls a @ re_sub_escape cls b"
  unfolding re_sub_escape_eq by simp

lemma dec_plain: "set (dec n) \<inter> set escape_chars_v2 = {}"
  using dec_digits[of n] by (auto simp: escape_chars_v2_def ascii_def)

lemma escape_part_label:
  "escape_markdown_v2 uu d (part_label i n)
     = ([BSL, LPAR] @ [1095, 1072, 1089, 1090, 1100, 32] @ dec i @ ascii ''/'' @ dec n @ [BSL, RPAR], d)"
proof -
  have nb: "LBR \<notin> set (part_label i n)"
    using dec_digits[of i] dec_digits[of n] by (auto simp: part_label_def ascii_def)
  have ne: "part_label i n \<noteq> []" by (simp add: part_label_def)
  have e1: "re_sub_escape escape_chars_v2 [40, 1095, 1072, 1089, 1090, 1100, 32]
      = [BSL, LPAR, 1095, 1072, 1089, 1090, 1100, 32]"
    by (simp add: re_sub_escape_eq escape_chars_v2_def ascii_def)
  have e2: "re_sub_escape escape_chars_v2 (ascii ''/'') = ascii ''/''"
    by (simp add: re_sub_escape_eq escape_chars_v2_def ascii_def)
  have e3: "re_sub_escape escape_chars_v2 (ascii '')'') = [BSL, RPAR]"
    by (simp add: re_sub_escape_eq escape_chars_v2_def ascii_def)
  have "re_sub_escape escape_chars_v2 (part_label i n)
      = [BSL, LPAR] @ [1095, 1072, 1089, 1090, 1100, 32] @ dec i @ ascii ''/'' @ dec n @ [BSL, RPAR]"
    unfolding part_label_def re_sub_escape_append e1 e2 e3 escape_plain[OF dec_plain] by simp
  then show ?thesis
    using ne by (simp add: escape_markdown_v2_def re_scan_no_bracket[OF nb] re_sub_uuid_Lit)
qed

lemma add_indicators_eq:
  "add_indicators uu d n i cs
     = (map (\<lambda>(k, c). c @ part_indicator (i + k) n) (enumerate 0 cs), d)"
proof (induction cs arbitrary: i)
  case Nil
  then show ?case by simp
next
  case (Cons c cs)
  have "map (\<lambda>(k, c). c @ part_indicator (i + k) n) (enumerate (Suc 0) cs)
      = map (\<lambda>(k, c). c @ part_indicator (Suc i + k) n) (enumerate 0 cs)"
    by (simp add: enumerate_eq_zip map_Suc_upt[symmetric] zip_map1 del: upt_Suc)
       (simp add: map_Suc_upt zip_map1 case_prod_beta)
  then show ?case
    using Cons.IH[of "Suc i"] by (simp add: escape_part_label part_indicator_def)
qed


lemma weave_last:
  "length seps = Suc (length bodies) \<Longrightarrow>
   weave (butlast seps @ [last seps @ x]) bodies = weave seps bodies @ x"
proof (induction seps bodies rule: weave.induct)
  case (1 seps)
  then show ?case by (cases seps) simp_all
next
  case (2 b bs)
  then show ?case by simp
next
  case (3 s seps b bs)
  then have "seps \<noteq> []" by auto
  with 3 show ?case by simp
qed

lemma weave_snoc:
  "length seps = Suc (length chunks) \<Longrightarrow>
   weave (seps @ [x]) (chunks @ [cur]) = weave seps chunks @ cur @ x"
proof (induction seps chunks rule: weave.induct)
  case (1 seps)
  then show ?case by (cases seps) simp_all
next
  case (2 b bs)
  then show ?case by simp
next
  case (3 s seps b bs)
  then show ?case by simp
qed

lemma packed_init: "packed [] cur cur"
  unfolding packed_def by (rule exI[of _ "[[]]"]) simp

lemma packed_grow: "packed chunks cur t \<Longrightarrow> packed chunks (cur @ y) (t @ y)"
  unfolding packed_def by auto

lemma packed_ext:
  assumes "packed chunks [] t" and "set x \<subseteq> {NL}"
  shows "packed chunks [] (t @ x)"
proof -
  from assms(1) obtain seps where s: "length seps = Suc (length chunks)"
      "set (concat seps) \<subseteq> {NL}" "t = weave seps chunks"
    unfolding packed_def by auto
  then have ne: "seps \<noteq> []" by auto
  let ?seps = "butlast seps @ [last seps @ x]"
  have "length ?seps = Suc (length chunks)" using s(1) ne by simp
  moreover have "set (concat ?seps) \<subseteq> {NL}"
  proof -
    have "set (concat ?seps) = set (concat (butlast seps @ [last seps])) \<union> set x" by auto
    also have "butlast seps @ [last seps] = seps" using ne by simp
    finally show ?thesis using s(2) assms(2) by auto
  qed
  moreover have "t @ x = weave ?seps chunks @ []"
    using weave_last[OF s(1), of x] s(3) by simp
  ultimately show ?thesis unfolding packed_def by blast
qed

lemma packed_cut:
  assumes "packed chunks cur t" and "set x \<subseteq> {NL}"
  shows "packed (chunks @ [cur]) [] (t @ x)"
proof -
  from assms(1) obtain seps where s: "length seps = Suc (length chunks)"
      "set (concat seps) \<subseteq> {NL}" "t = weave seps chunks @ cur"
    unfolding packed_def by auto
  have "length (seps @ [x]) = Suc (length (chunks @ [cur]))" using s(1) by simp
  moreover have "set (concat (seps @ [x])) \<subseteq> {NL}" using s(2) assms(2) by auto
  moreover have "t @ x = weave (seps @ [x]) (chunks @ [cur]) @ []"
    using weave_snoc[OF s(1), of x cur] s(3) by simp
  ultimately show ?thesis unfolding packed_def by blast
qed

lemma packed_start:
  assumes "packed chunks [] t" and "set x \<subseteq> {NL}"
  shows "packed chunks y (t @ x @ y)"
  using packed_grow[OF packed_ext[OF assms], of y] by simp

lemma packed_next:
  assumes "packed chunks cur t" and "set x \<subseteq> {NL}"
  shows "packed (chunks @ [cur]) y (t @ x @ y)"
  using packed_grow[OF packed_cut[OF assms], of y] by simp

lemma pack_lines_packed:
  "packed chunks cur t \<Longrightarrow>
   packed (fst (pack_lines ml ls (chunks, cur))) (snd (pack_lines ml ls (chunks, cur)))
     (t @ concat (map (\<lambda>l. NL # l) ls))"
proof (induction ls arbitrary: chunks cur t)
  case Nil
  then show ?case by simp
next
  case (Cons l ls)
  have nl: "set [NL] \<subseteq> {NL}" by simp
  show ?case
  proof (cases "cur = []")
    case True
    with Cons.prems have "packed chunks l (t @ [NL] @ l)"
      using packed_start[OF _ nl] by simp
    from Cons.IH[OF this] True show ?thesis by simp
  next
    case False
    show ?thesis
    proof (cases "int (length cur) + int (length l) + 1 \<le> ml")
      case True
      from packed_grow[OF Cons.prems, of "[NL] @ l"]
      have "packed chunks (cur @ [NL] @ l) (t @ [NL] @ l)" .
      from Cons.IH[OF this] True False show ?thesis by simp
    next
      case nf: False
      from packed_next[OF Cons.prems nl, of l]
      have "packed (chunks @ [cur]) l (t @ [NL] @ l)" .
      from Cons.IH[OF this] nf False show ?thesis by simp
    qed
  qed
qed

lemma split_tokens_nonempty: "split_tokens ts \<noteq> []"
  by (induction ts rule: split_tokens.induct) (simp_all split: list.splits)

lemma re_scan_literal_untok:
  assumes "sep \<noteq> []"
  shows "concat (map (\<lambda>t. case t of Lit c \<Rightarrow> [c] | Match w g \<Rightarrow> sep) (re_scan (match_literal sep) k s))
     = drop k s"
proof (induction s arbitrary: k)
  case Nil
  then show ?case by simp
next
  case (Cons c cs)
  show ?case
  proof (cases k)
    case (Suc j)
    then show ?thesis using Cons.IH[of j] by simp
  next
    case 0
    show ?thesis
    proof (cases "take (length sep) (c # cs) = sep")
      case False
      then show ?thesis using 0 Cons.IH[of 0] by (simp add: match_literal_def)
    next
      case True
      have "c # cs = take (length sep) (c # cs) @ drop (length sep) (c # cs)" by simp
      moreover have "drop (length sep) (c # cs) = drop (length sep - 1) cs"
        using assms by (cases sep) simp_all
      ultimately have d: "sep @ drop (length sep - 1) cs = c # cs" using True by simp
      have rs: "re_scan (match_literal sep) 0 (c # cs)
          = Match (take (length sep) (c # cs)) [] # re_scan (match_literal sep) (length sep - 1) cs"
        using True by (simp add: match_literal_def)
      show ?thesis unfolding 0 rs using Cons.IH[of "length sep - 1"] d by simp
    qed
  qed
qed

lemma split_tokens_join:
  "concat (map (\<lambda>t. case t of Lit c \<Rightarrow> [c] | Match w g \<Rightarrow> sep) ts)
     = hd (split_tokens ts) @ concat (map (\<lambda>q. sep @ q) (tl (split_tokens ts)))"
proof (induction ts rule: split_tokens.induct)
  case 1
  then show ?case by simp
next
  case (2 c ts)
  then show ?case using split_tokens_nonempty[of ts] by (cases "split_tokens ts") simp_all
next
  case (3 w g ts)
  then show ?case using split_tokens_nonempty[of ts] by (cases "split_tokens ts") simp_all
qed

lemma str_split_join:
  assumes "sep \<noteq> []"
  obtains p ps where "str_split sep s = p # ps" and "s = p @ concat (map (\<lambda>q. sep @ q) ps)"
proof -
  let ?ts = "re_scan (match_literal sep) 0 s"
  have "s = hd (split_tokens ?ts) @ concat (map (\<lambda>q. sep @ q) (tl (split_tokens ?ts)))"
    using re_scan_literal_untok[OF assms, of 0 s] split_tokens_join[of sep ?ts] by simp
  moreover have "str_split sep s = hd (split_tokens ?ts) # tl (split_tokens ?ts)"
    using split_tokens_nonempty[of ?ts] by (simp add: str_split_def)
  ultimately show ?thesis using that by blast
qed

lemma pack_lines_first:
  "pack_lines ml (l # ls) (chunks, []) = pack_lines ml ls (chunks, l)"
  by simp

lemma pack_lines_split_packed:
  assumes "packed chunks [] t" and "set x \<subseteq> {NL}"
  shows "packed (fst (pack_lines ml (str_split [NL] p) (chunks, [])))
           (snd (pack_lines ml (str_split [NL] p) (chunks, []))) (t @ x @ p)"
proof -
  obtain l ls where sp: "str_split [NL] p = l # ls" and j: "p = l @ concat (map (\<lambda>q. [NL] @ q) ls)"
    using str_split_join[of "[NL]" p] by blast
  have "packed chunks l (t @ x @ l)" by (rule packed_start[OF assms])
  from pack_lines_packed[OF this, of ml ls]
  show ?thesis unfolding sp pack_lines_first using j by simp
qed

lemma pack_paragraphs_packed:
  "packed chunks cur t \<Longrightarrow>
   packed (fst (pack_paragraphs ml ps (chunks, cur))) (snd (pack_paragraphs ml ps (chunks, cur)))
     (t @ concat (map (\<lambda>p. [NL, NL] @ p) ps))"
proof (induction ps arbitrary: chunks cur t)
  case Nil
  then show ?case by simp
next
  case (Cons p ps)
  have nl: "set [NL, NL] \<subseteq> {NL}" by simp
  show ?case
  proof (cases "int (length cur) + int (length p) + 2 \<le> ml")
    case True
    show ?thesis
    proof (cases "cur = []")
      case e: True
      with Cons.prems have "packed chunks p (t @ [NL, NL] @ p)"
        using packed_start[OF _ nl] by simp
      from Cons.IH[OF this] True e show ?thesis by simp
    next
      case ne: False
      from packed_grow[OF Cons.prems, of "[NL, NL] @ p"]
      have "packed chunks (cur @ [NL, NL] @ p) (t @ [NL, NL] @ p)" .
      from Cons.IH[OF this] True ne show ?thesis by simp
    qed
  next
    case False
    show ?thesis
    proof (cases "cur = []")
      case ne: False
      from packed_next[OF Cons.prems nl, of p]
      have "packed (chunks @ [cur]) p (t @ [NL, NL] @ p)" .
      from Cons.IH[OF this] False ne show ?thesis by simp
    next
      case e: True
      obtain ch' cur' where pl: "pack_lines ml (str_split [NL] p) (chunks, []) = (ch', cur')"
        by (cases "pack_lines ml (str_split [NL] p) (chunks, [])")
      from Cons.prems e have "packed chunks [] t" by simp
      from pack_lines_split_packed[OF this nl, of ml p] pl
      have "packed ch' cur' (t @ [NL, NL] @ p)" by simp
      from Cons.IH[OF this] False e pl show ?thesis by simp
    qed
  qed
qed

lemma split_chunks_packed: "packed (split_chunks s ml) [] s"
proof -
  obtain p ps where sp: "str_split [NL, NL] s = p # ps"
      and j: "s = p @ concat (map (\<lambda>q. [NL, NL] @ q) ps)"
    using str_split_join[of "[NL, NL]" s] by blast
  obtain ch cur where pp: "pack_paragraphs ml (p # ps) ([], []) = (ch, cur)"
    by (cases "pack_paragraphs ml (p # ps) ([], [])")
  have e: "set ([]::ustr) \<subseteq> {NL}" by simp
  have "packed ch cur s"
  proof (cases "int (length p) + 2 \<le> ml")
    case True
    then have "pack_paragraphs ml (p # ps) ([], []) = pack_paragraphs ml ps ([], p)" by simp
    with pp have q: "pack_paragraphs ml ps ([], p) = (ch, cur)" by simp
    from pack_paragraphs_packed[OF packed_init[of p], of ml ps]
    show ?thesis unfolding q using j by simp
  next
    case False
    obtain ch' cur' where pl: "pack_lines ml (str_split [NL] p) ([], []) = (ch', cur')"
      by (cases "pack_lines ml (str_split [NL] p) ([], [])")
    from pack_lines_split_packed[OF packed_init[of "[]"] e, of ml p] pl
    have "packed ch' cur' p" by simp
    have "pack_paragraphs ml (p # ps) ([], []) = pack_paragraphs ml ps (ch', cur')"
      using False pl by simp
    with pp have q: "pack_paragraphs ml ps (ch', cur') = (ch, cur)" by simp
    from pack_paragraphs_packed[OF \<open>packed ch' cur' p\<close>, of ml ps]
    show ?thesis unfolding q using j by simp
  qed
  then show ?thesis
  proof (cases "cur = []")
    case True
    with \<open>packed ch cur s\<close> pp sp show ?thesis by (simp add: split_chunks_def)
  next
    case False
    from packed_cut[OF \<open>packed ch cur s\<close> e] False pp sp show ?thesis by (simp add: split_chunks_def)
  qed
qed

lemma chunk_bodies_woven:
  "\<exists>seps. length seps = Suc (length (chunk_bodies s ml)) \<and> set (concat seps) \<subseteq> {NL}
     \<and> s = weave seps (chunk_bodies s ml)"
proof (cases "int (length s) \<le> ml")
  case True
  have "length [[], []::ustr] = Suc (length [s]) \<and> set (concat [[], []::ustr]) \<subseteq> {NL}
      \<and> s = weave [[], []] [s]" by simp
  then show ?thesis using True unfolding chunk_bodies_def by (simp only: if_True) blast
next
  case False
  then show ?thesis using split_chunks_packed[of s ml] by (simp add: chunk_bodies_def packed_def)
qed

text \<open>
  C4.  The text is the bodies of the chunks in their order with nothing but line feeds
  before, between and after them (\<open>weave\<close>): the chunker loses only line feeds at the
  places where it cuts, and it keeps every other character, the line feeds inside a
  chunk included, where it was.  When more than one chunk is returned, chunk \<open>i\<close>
  (counted from 1) of \<open>n\<close> is its body followed by the indicator for \<open>i\<close> and \<open>n\<close>;
  otherwise the chunks are the bodies.
\<close>

theorem split_message_content_and_indicators:
  "(let bodies = chunk_bodies text max_length;
        chunks = fst (split_message_markdown uu d text max_length);
        n = length chunks
    in length bodies = n
       \<and> (\<exists>seps. length seps = Suc n \<and> set (concat seps) \<subseteq> {NL} \<and> text = weave seps bodies)
       \<and> filter (\<lambda>c. c \<noteq> NL) (concat bodies) = filter (\<lambda>c. c \<noteq> NL) text
       \<and> (if n > 1 then \<forall>i<n. chunks ! i = bodies ! i @ part_indicator (i + 1) n
           else chunks = bodies))"
proof -
  let ?b = "chunk_bodies text max_length"
  let ?c = "fst (split_message_markdown uu d text max_length)"
  have rest: "length ?b = length ?c
       \<and> filter (\<lambda>c. c \<noteq> NL) (concat ?b) = filter (\<lambda>c. c \<noteq> NL) text
       \<and> (if length ?c > 1 then \<forall>i<length ?c. ?c ! i = ?b ! i @ part_indicator (i + 1) (length ?c)
           else ?c = ?b)"
  proof (cases "int (length text) \<le> max_length")
    case True
    then show ?thesis
      by (simp add: chunk_bodies_def split_message_markdown_def)
  next
    case False
    let ?cs = "split_chunks text max_length"
    have b: "chunk_bodies text max_length = ?cs"
      using False by (simp add: chunk_bodies_def)
    have f: "filter (\<lambda>c. c \<noteq> NL) (concat ?cs) = filter (\<lambda>c. c \<noteq> NL) text"
      by (rule split_chunks_filter)
    show ?thesis
    proof (cases "length ?cs > 1")
      case False
      with \<open>\<not> int (length text) \<le> max_length\<close> have "fst (split_message_markdown uu d text max_length) = ?cs"
        by (simp add: split_message_markdown_def Let_def)
      with False b f show ?thesis by simp
    next
      case True
      with \<open>\<not> int (length text) \<le> max_length\<close>
      have c: "fst (split_message_markdown uu d text max_length)
          = map (\<lambda>(k, c). c @ part_indicator (1 + k) (length ?cs)) (enumerate 0 ?cs)"
        by (simp add: split_message_markdown_def Let_def add_indicators_eq)
      have l: "length (fst (split_message_markdown uu d text max_length)) = length ?cs"
        unfolding c by simp
      have n: "\<forall>i<length ?cs. fst (split_message_markdown uu d text max_length) ! i
          = ?cs ! i @ part_indicator (i + 1) (length ?cs)"
        unfolding c by (simp add: nth_enumerate_eq)
      show ?thesis
        unfolding b l using True f n by simp
    qed
  qed
  from rest have l: "length ?b = length ?c" by (rule conjunct1)
  have w: "\<exists>seps. length seps = Suc (length ?c) \<and> set (concat seps) \<subseteq> {NL} \<and> text = weave seps ?b"
    using chunk_bodies_woven[of "text" max_length] unfolding l .
  show ?thesis
    unfolding Let_def
    by (intro conjI, rule l, rule w, rule rest[THEN conjunct2, THEN conjunct1],
        rule rest[THEN conjunct2, THEN conjunct2])
qed

theorem split_message_content_and_indicators_witness:
  "length (fst (split_message_markdown (\<lambda>k. []) 0 (ascii ''aaaaaaaa'' @ [NL, NL] @ ascii ''bbbbbbbb'') 10)) = 2
   \<and> fst (split_message_markdown (\<lambda>k. []) 0 (ascii ''aaaaaaaa'' @ [NL, NL] @ ascii ''bbbbbbbb'') 10) ! 1
       = ascii ''bbbbbbbb'' @ part_indicator 2 2
   \<and> (\<exists>seps. length seps = 3 \<and> set (concat seps) \<subseteq> {NL}
        \<and> ascii ''aaaaaaaa'' @ [NL, NL] @ ascii ''bbbbbbbb''
            = weave seps [ascii ''aaaaaaaa'', ascii ''bbbbbbbb''])"
proof -
  let ?t = "ascii ''aaaaaaaa'' @ [NL, NL] @ ascii ''bbbbbbbb''"
  let ?r = "fst (split_message_markdown (\<lambda>k. []) 0 ?t 10)"
  have l: "length ?r = 2" by code_simp
  have b: "chunk_bodies ?t 10 ! 1 = ascii ''bbbbbbbb''" by code_simp
  have bs: "chunk_bodies ?t 10 = [ascii ''aaaaaaaa'', ascii ''bbbbbbbb'']" by code_simp
  note T = split_message_content_and_indicators[of ?t 10 "\<lambda>k. []" 0, unfolded Let_def]
  from T l have "\<forall>i<2. ?r ! i = chunk_bodies ?t 10 ! i @ part_indicator (i + 1) 2"
    by simp
  then have "?r ! 1 = chunk_bodies ?t 10 ! 1 @ part_indicator (1 + 1) 2" by simp
  then have i: "?r ! 1 = ascii ''bbbbbbbb'' @ part_indicator 2 2"
    by (simp only: b one_add_one)
  from T[THEN conjunct2, THEN conjunct1]
  have w: "\<exists>seps. length seps = 3 \<and> set (concat seps) \<subseteq> {NL}
        \<and> ?t = weave seps [ascii ''aaaaaaaa'', ascii ''bbbbbbbb'']"
    unfolding l bs by (simp only: eval_nat_numeral)
  from l i w show ?thesis by (intro conjI)
qed


text \<open>
  C3.  The claim bounds every chunk, its indicator included, by \<open>max_length\<close> unless a
  single line is longer.  With \<open>max_length = 20\<close>: two paragraphs of 15 characters give
  two chunks of 32 characters, since the indicator is appended after the packing; and
  a paragraph of three lines of 10 characters that follows a short paragraph is kept
  whole as a chunk of 32 characters before any indicator, since a paragraph is only
  split into lines when the current chunk is empty.  No line is longer than 20.
\<close>

theorem chunk_exceeds_max_length:
  "map length (fst (split_message_markdown (\<lambda>k. []) 0 (replicate 15 97 @ [NL, NL] @ replicate 15 98) 20)) = [32, 32]
   \<and> map length (str_split [NL] (replicate 15 97 @ [NL, NL] @ replicate 15 98)) = [15, 0, 15]
   \<and> map length (split_chunks (ascii ''ab'' @ [NL, NL] @ replicate 10 99 @ [NL] @ replicate 10 100 @ [NL] @ replicate 10 101) 20) = [2, 32]
   \<and> map length (str_split [NL] (ascii ''ab'' @ [NL, NL] @ replicate 10 99 @ [NL] @ replicate 10 100 @ [NL] @ replicate 10 101)) = [2, 0, 10, 10, 10]"
  by code_simp

section \<open>Properties of the outbound calls\<close>

lemma trace_emit [simp]: "trace (emit ev st) = trace st @ [ev]"
  by (simp add: emit_def)

lemma draws_emit [simp]: "draws (emit ev st) = draws st"
  by (simp add: emit_def)

lemma trace_initial [simp]: "trace initial_state = []"
  by (simp add: initial_state_def)

lemma fetch_attempt_ok:
  "get_latest e (length (filter is_Get (trace st))) = Response code p \<Longrightarrow> code < 500 \<Longrightarrow>
   fetch_attempt e url st = (Inr (code, p), emit (Get url) st)"
  by (simp add: fetch_attempt_def Let_def)

lemma fetch_attempt_fail:
  "retryable (get_latest e (length (filter is_Get (trace st)))) \<Longrightarrow>
   \<exists>ex. fetch_attempt e url st = (Inl ex, emit (Get url) st)
        \<and> (case ex of HTTPStatusError code p \<Rightarrow> code \<ge> 500 | OtherError msg \<Rightarrow> True)"
  by (cases "get_latest e (length (filter is_Get (trace st)))")
     (auto simp: fetch_attempt_def Let_def retryable_def raise_for_status_def)

lemma fetch_latest_once:
  assumes "get_latest e 0 = Response code p" and "code < 500"
  shows "fetch_latest e url initial_state = (Inr (code, p), emit (Get url) initial_state)"
proof -
  have "fetch_attempt e url initial_state = (Inr (code, p), emit (Get url) initial_state)"
    using assms by (intro fetch_attempt_ok) simp_all
  then show ?thesis
    by (simp add: fetch_latest_def numeral_2_eq_2)
qed

lemma fetch_latest_thrice:
  assumes "\<forall>k<3. retryable (get_latest e k)"
  shows "\<exists>ex. fetch_latest e url initial_state
           = (Inl ex, emit (Get url) (emit (Get url) (emit (Get url) initial_state)))
         \<and> (case ex of HTTPStatusError code p \<Rightarrow> code \<ge> 500 | OtherError msg \<Rightarrow> True)"
proof -
  let ?s1 = "emit (Get url) initial_state"
  let ?s2 = "emit (Get url) ?s1"
  let ?s3 = "emit (Get url) ?s2"
  from assms have r: "retryable (get_latest e 0)" "retryable (get_latest e 1)" "retryable (get_latest e 2)"
    by simp_all
  obtain x1 where 1: "fetch_attempt e url initial_state = (Inl x1, ?s1)"
    using fetch_attempt_fail[of e initial_state url] r(1) by auto
  obtain x2 where 2: "fetch_attempt e url ?s1 = (Inl x2, ?s2)"
    using fetch_attempt_fail[of e ?s1 url] r(2) by auto
  obtain x3 where 3: "fetch_attempt e url ?s2 = (Inl x3, ?s3)"
    and c: "case x3 of HTTPStatusError code p \<Rightarrow> code \<ge> 500 | OtherError msg \<Rightarrow> True"
    using fetch_attempt_fail[of e ?s2 url] r(3) by (auto simp: numeral_2_eq_2)
  have "retrying 2 (fetch_attempt e url) initial_state = (Inl x3, ?s3)"
    using 1 2 3 by (simp add: numeral_2_eq_2)
  with c show ?thesis
    by (cases x3) (auto simp: fetch_latest_def)
qed

lemma post_chunks_trace:
  "\<exists>k. k \<le> length cs \<and> (cs \<noteq> [] \<longrightarrow> 0 < k)
       \<and> trace (snd (post_chunks e cs st)) = trace st @ map Post (take k cs)
       \<and> draws (snd (post_chunks e cs st)) = draws st"
proof (induction cs arbitrary: st)
  case Nil
  then show ?case by simp
next
  case (Cons c cs)
  let ?st1 = "emit (Post c) st"
  show ?case
  proof (cases "post_chunks e (c # cs) st = post_chunks e cs ?st1")
    case True
    from Cons.IH[of ?st1] obtain k where k: "k \<le> length cs"
      "trace (snd (post_chunks e cs ?st1)) = trace ?st1 @ map Post (take k cs)"
      "draws (snd (post_chunks e cs ?st1)) = draws ?st1" by blast
    show ?thesis
      by (rule exI[of _ "Suc k"]) (use True k in simp)
  next
    case False
    then have "snd (post_chunks e (c # cs) st) = ?st1"
      by (auto simp: Let_def raise_for_status_def split: outcome.splits sum.splits if_splits)
    then show ?thesis
      by (intro exI[of _ 1]) simp
  qed
qed

lemma post_chunks_all_ok:
  "(\<forall>k. \<exists>code p. telegram_post e k = Response code p \<and> 200 \<le> code \<and> code < 300) \<Longrightarrow>
   post_chunks e cs st = (Inr (), st\<lparr>trace := trace st @ map Post cs\<rparr>)"
proof (induction cs arbitrary: st)
  case Nil
  then show ?case by simp
next
  case (Cons c cs)
  from Cons.prems obtain code p where
    "telegram_post e (length (filter is_Post (trace st))) = Response code p" "200 \<le> code" "code < 300"
    by blast
  then show ?case
    using Cons.IH[OF Cons.prems, of "emit (Post c) st"]
    by (simp add: Let_def raise_for_status_def emit_def)
qed

lemma filter_not_Post [simp]:
  "filter is_Get (map Post xs) = []" "filter is_Chat (map Post xs) = []" "filter is_Head (map Post xs) = []"
  by (induction xs) simp_all

lemma send_telegram_trace:
  "\<exists>k. k \<le> length (sent_chunks e message st) \<and> (sent_chunks e message st \<noteq> [] \<longrightarrow> 0 < k)
       \<and> trace (snd (send_telegram_message e message st))
           = trace st @ map Post (take k (sent_chunks e message st))"
proof -
  obtain cs d where s: "split_message_markdown (uuid4_hex e) (draws st) message TELEGRAM_MAX_MESSAGE_LENGTH = (cs, d)"
    by (cases "split_message_markdown (uuid4_hex e) (draws st) message TELEGRAM_MAX_MESSAGE_LENGTH")
  show ?thesis
    using post_chunks_trace[of cs e "st\<lparr>draws := d\<rparr>"] s
    by (simp add: send_telegram_message_def sent_chunks_def) blast
qed

lemma trace_error_message [simp]: "trace (snd (error_message e m st)) = trace st"
  by (simp add: error_message_def split: prod.splits)

lemma send_error_trace:
  "\<exists>k. k \<le> length (error_chunks e m st) \<and> (error_chunks e m st \<noteq> [] \<longrightarrow> 0 < k)
       \<and> trace (send_error_notification e m st)
           = trace st @ map Post (take k (error_chunks e m st))"
proof -
  obtain message st1 where em: "error_message e m st = (message, st1)"
    by (cases "error_message e m st")
  then have t: "trace st1 = trace st"
    using trace_error_message[of e m st] by simp
  show ?thesis
    using send_telegram_trace[of e message st1] em t
    by (simp add: send_error_notification_def error_chunks_def)
qed

lemma check_4xx:
  assumes g: "get_latest e 0 = Response code p" and c: "400 \<le> code" "code < 500"
  shows "fst (check_repo_for_updates e name path seen initial_state) = None
       \<and> filter is_Get (trace (snd (check_repo_for_updates e name path seen initial_state)))
           = [Get (releases_url path)]"
proof -
  let ?st1 = "emit (Get (releases_url path)) initial_state"
  let ?st2 = "emit (Head (repo_check_url path)) ?st1"
  from c have "code < 500" by simp
  from fetch_latest_once[OF g this]
  have f: "fetch_latest e (releases_url path) initial_state = (Inr (code, p), ?st1)" .
  have r: "raise_for_status code p = Inl (HTTPStatusError code p)"
    using c by (simp add: raise_for_status_def)
  have t: "try_check e name path seen initial_state = (Inl (HTTPStatusError code p), ?st1)"
    by (simp add: try_check_def f r)
  obtain k where k: "trace (send_error_notification e (not_found_text name path) ?st2)
      = trace ?st2 @ map Post (take k (error_chunks e (not_found_text name path) ?st2))"
    using send_error_trace by blast
  show ?thesis
    by (cases "head_repo e") (simp_all add: check_repo_for_updates_def t Let_def k)
qed

lemma check_retry_exhausted:
  assumes "\<forall>k<3. retryable (get_latest e k)"
  shows "fst (check_repo_for_updates e name path seen initial_state) = None
       \<and> filter is_Get (trace (snd (check_repo_for_updates e name path seen initial_state)))
           = [Get (releases_url path), Get (releases_url path), Get (releases_url path)]"
proof -
  let ?u = "releases_url path"
  let ?st3 = "emit (Get ?u) (emit (Get ?u) (emit (Get ?u) initial_state))"
  from fetch_latest_thrice[OF assms, of ?u] obtain ex where
    f: "fetch_latest e ?u initial_state = (Inl ex, ?st3)"
    and c: "case ex of HTTPStatusError code p \<Rightarrow> code \<ge> 500 | OtherError msg \<Rightarrow> True" by blast
  have t: "try_check e name path seen initial_state = (Inl ex, ?st3)"
    by (simp add: try_check_def f)
  show ?thesis
  proof (cases ex)
    case (HTTPStatusError code p)
    with c have "code \<ge> 500" by simp
    then show ?thesis
      using HTTPStatusError by (simp add: check_repo_for_updates_def t)
  next
    case (OtherError msg)
    obtain k where k: "trace (send_error_notification e (check_failed_text name msg) ?st3)
        = trace ?st3 @ map Post (take k (error_chunks e (check_failed_text name msg) ?st3))"
      using send_error_trace by blast
    show ?thesis
      using OtherError by (simp add: check_repo_for_updates_def t k)
  qed
qed

lemma summary_attempt_fail:
  assumes "notes \<noteq> []" "notes \<noteq> NO_DESCRIPTION"
    and "chat_fails (chat_completion e (length (filter is_Chat (trace st))))"
  shows "\<exists>ex notes'. summary_attempt e notes lang st = (Inl ex, emit (Chat notes' lang) st)"
  using assms
  by (cases "chat_completion e (length (filter is_Chat (trace st)))")
     (auto simp: summary_attempt_def chat_fails_def Let_def)

lemma summary_retry_exhausted:
  assumes n: "notes \<noteq> []" "notes \<noteq> NO_DESCRIPTION"
    and f: "\<forall>k<3. chat_fails (chat_completion e k)"
  shows "\<exists>ex st. get_openrouter_summary_with_retry e notes lang initial_state = (Inl ex, st)
           \<and> length (filter is_Chat (trace st)) = 3 \<and> draws st = 0"
proof -
  from f have r: "chat_fails (chat_completion e 0)" "chat_fails (chat_completion e 1)"
    "chat_fails (chat_completion e 2)" by simp_all
  obtain x1 n1 where 1: "summary_attempt e notes lang initial_state = (Inl x1, emit (Chat n1 lang) initial_state)"
    using summary_attempt_fail[OF n, of e initial_state lang] r(1) by auto
  let ?s1 = "emit (Chat n1 lang) initial_state"
  obtain x2 n2 where 2: "summary_attempt e notes lang ?s1 = (Inl x2, emit (Chat n2 lang) ?s1)"
    using summary_attempt_fail[OF n, of e ?s1 lang] r(2) by auto
  let ?s2 = "emit (Chat n2 lang) ?s1"
  obtain x3 n3 where 3: "summary_attempt e notes lang ?s2 = (Inl x3, emit (Chat n3 lang) ?s2)"
    using summary_attempt_fail[OF n, of e ?s2 lang] r(3) by (auto simp: numeral_2_eq_2)
  have "get_openrouter_summary_with_retry e notes lang initial_state = (Inl x3, emit (Chat n3 lang) ?s2)"
    using 1 2 3 by (simp add: get_openrouter_summary_with_retry_def numeral_2_eq_2)
  then show ?thesis by (simp add: initial_state_def)
qed

text \<open>
  C5 (as amended).  On the release-fetch path a 4xx response, 403 included, ends the
  task with no update after one request, and three outcomes in a row that are
  transport failures or 5xx responses end it after three requests.  On the summary
  path every failed attempt is tried again, whatever its cause: three failing
  outcomes in a row, a 403 or another 4xx included, make three requests before the
  exception reaches the caller.
\<close>

theorem retry_decision_tables:
  "(get_latest e1 0 = Response code p \<and> 400 \<le> code \<and> code < 500 \<longrightarrow>
      fst (check_repo_for_updates e1 name path seen initial_state) = None
      \<and> filter is_Get (trace (snd (check_repo_for_updates e1 name path seen initial_state)))
          = [Get (releases_url path)])
   \<and> ((\<forall>k<3. retryable (get_latest e2 k)) \<longrightarrow>
      fst (check_repo_for_updates e2 name path seen initial_state) = None
      \<and> filter is_Get (trace (snd (check_repo_for_updates e2 name path seen initial_state)))
          = [Get (releases_url path), Get (releases_url path), Get (releases_url path)])
   \<and> (notes \<noteq> [] \<and> notes \<noteq> NO_DESCRIPTION \<and> (\<forall>k<3. chat_fails (chat_completion e3 k)) \<longrightarrow>
      (\<exists>ex st. get_openrouter_summary_with_retry e3 notes lang initial_state = (Inl ex, st)
          \<and> length (filter is_Chat (trace st)) = 3))"
proof (intro conjI impI)
  assume "get_latest e1 0 = Response code p \<and> 400 \<le> code \<and> code < 500"
  then show "fst (check_repo_for_updates e1 name path seen initial_state) = None"
    and "filter is_Get (trace (snd (check_repo_for_updates e1 name path seen initial_state)))
          = [Get (releases_url path)]"
    using check_4xx[of e1 code p name path seen] by simp_all
next
  assume "\<forall>k<3. retryable (get_latest e2 k)"
  then show "fst (check_repo_for_updates e2 name path seen initial_state) = None"
    and "filter is_Get (trace (snd (check_repo_for_updates e2 name path seen initial_state)))
          = [Get (releases_url path), Get (releases_url path), Get (releases_url path)]"
    using check_retry_exhausted[of e2 name path seen] by simp_all
next
  assume "notes \<noteq> [] \<and> notes \<noteq> NO_DESCRIPTION \<and> (\<forall>k<3. chat_fails (chat_completion e3 k))"
  then show "\<exists>ex st. get_openrouter_summary_with_retry e3 notes lang initial_state = (Inl ex, st)
          \<and> length (filter is_Chat (trace st)) = 3"
    using summary_retry_exhausted[of "notes" e3 lang] by blast
qed

theorem retry_decision_tables_witness:
  "fst (check_repo_for_updates (constant_env (Response 403 (NotRelease [])) (Failure []) (Failure []))
          (ascii ''r'') (ascii ''o/r'') None initial_state) = None
   \<and> filter is_Get (trace (snd (check_repo_for_updates
          (constant_env (Response 403 (NotRelease [])) (Failure []) (Failure []))
          (ascii ''r'') (ascii ''o/r'') None initial_state))) = [Get (releases_url (ascii ''o/r''))]
   \<and> filter is_Get (trace (snd (check_repo_for_updates
          (constant_env (Response 503 (NotRelease [])) (Failure []) (Failure []))
          (ascii ''r'') (ascii ''o/r'') None initial_state)))
        = [Get (releases_url (ascii ''o/r'')), Get (releases_url (ascii ''o/r'')),
           Get (releases_url (ascii ''o/r''))]
   \<and> (\<exists>ex st. get_openrouter_summary_with_retry
          (constant_env (Failure []) (Response 403 []) (Failure []))
          (ascii ''notes'') (ascii ''en'') initial_state = (Inl ex, st)
        \<and> length (filter is_Chat (trace st)) = 3)"
proof -
  let ?e1 = "constant_env (Response 403 (NotRelease [])) (Failure []) (Failure [])"
  let ?e2 = "constant_env (Response 503 (NotRelease [])) (Failure []) (Failure [])"
  let ?e3 = "constant_env (Failure []) (Response 403 []) (Failure [])"
  have h1: "get_latest ?e1 0 = Response 403 (NotRelease []) \<and> (400::nat) \<le> 403 \<and> (403::nat) < 500"
    by (simp add: constant_env_def)
  have h2: "\<forall>k<3. retryable (get_latest ?e2 k)"
    by (simp add: constant_env_def retryable_def)
  have h3: "ascii ''notes'' \<noteq> [] \<and> ascii ''notes'' \<noteq> NO_DESCRIPTION
      \<and> (\<forall>k<3. chat_fails (chat_completion ?e3 k))"
    by (simp add: constant_env_def chat_fails_def NO_DESCRIPTION_def ascii_def)
  note T = retry_decision_tables[of ?e1 403 "NotRelease []" "ascii ''r''" "ascii ''o/r''" None
      ?e2 "ascii ''notes''" ?e3 "ascii ''en''"]
  from T h1 h2 h3 show ?thesis by blast
qed

text \<open>
  C5 as stated fails on the summary path: a 403 from the summary source is not
  terminal after one attempt, the call is made three times.
\<close>

theorem summary_call_retries_403:
  "length (filter is_Chat (trace (snd (get_openrouter_summary_with_retry
      (constant_env (Failure []) (Response 403 []) (Failure []))
      (ascii ''notes'') (ascii ''en'') initial_state)))) = 3"
  by code_simp

lemma split_message_nonempty:
  assumes "filter (\<lambda>c. c \<noteq> NL) message \<noteq> []"
  shows "fst (split_message_markdown uu d message ml) \<noteq> []"
proof (cases "int (length message) \<le> ml")
  case True
  then show ?thesis by (simp add: split_message_markdown_def)
next
  case False
  let ?cs = "split_chunks message ml"
  have "filter (\<lambda>c. c \<noteq> NL) (concat ?cs) \<noteq> []"
    using assms by (simp add: split_chunks_filter)
  then have "?cs \<noteq> []" by auto
  then show ?thesis
    using False by (auto simp: split_message_markdown_def Let_def add_indicators_eq enumerate_eq_zip)
qed

lemma error_chunks_nonempty: "error_chunks e m st \<noteq> []"
proof -
  obtain message st1 where em: "error_message e m st = (message, st1)"
    by (cases "error_message e m st")
  then have "filter (\<lambda>c. c \<noteq> NL) message \<noteq> []"
    by (auto simp: error_message_def ERROR_HEADER_def split: prod.splits)
  then show ?thesis
    using em by (simp add: error_chunks_def sent_chunks_def split_message_nonempty)
qed

lemma check_404:
  assumes g: "get_latest e 0 = Response 404 p"
  shows "check_repo_for_updates e name path seen initial_state
     = (let st2 = emit (Head (repo_check_url path)) (emit (Get (releases_url path)) initial_state)
        in case head_repo e of
             Response hc hp \<Rightarrow>
               if hc = 200 then (None, st2)
               else (None, send_error_notification e (not_found_text name path) st2)
           | Failure msg \<Rightarrow> (None, send_error_notification e (not_found_text name path) st2))"
proof -
  let ?st1 = "emit (Get (releases_url path)) initial_state"
  have "(404::nat) < 500" by simp
  from fetch_latest_once[OF g this]
  have f: "fetch_latest e (releases_url path) initial_state = (Inr (404, p), ?st1)" .
  have r: "raise_for_status 404 p = Inl (HTTPStatusError 404 p)"
    by (simp add: raise_for_status_def)
  have t: "try_check e name path seen initial_state = (Inl (HTTPStatusError 404 p), ?st1)"
    by (simp add: try_check_def f r)
  show ?thesis
    by (simp add: check_repo_for_updates_def t Let_def)
qed

lemma draws_initial: "draws initial_state = 0"
  by (simp add: initial_state_def)

lemma error_chunks_eq:
  "error_chunks e m st =
     fst (split_message_markdown (uuid4_hex e)
            (snd (escape_markdown_v2 (uuid4_hex e) (snd (escape_markdown_v2 (uuid4_hex e) (draws st) m))
                    (now_text e)))
            (ERROR_HEADER @ [BTICK] @ fst (escape_markdown_v2 (uuid4_hex e) (draws st) m) @ [BTICK, NL, NL]
               @ TIME_LABEL
               @ fst (escape_markdown_v2 (uuid4_hex e) (snd (escape_markdown_v2 (uuid4_hex e) (draws st) m))
                        (now_text e)))
            TELEGRAM_MAX_MESSAGE_LENGTH)"
  by (simp add: error_chunks_def error_message_def sent_chunks_def case_prod_beta)

lemma escape_no_bracket:
  "LBR \<notin> set s \<Longrightarrow> fst (escape_markdown_v2 uu d s) = backslashed s"
proof -
  assume nb: "LBR \<notin> set s"
  have "\<forall>t \<in> set (re_scan match_md_link 0 s). \<not> is_Match t"
    unfolding re_scan_no_bracket[OF nb] by simp
  from escape_markdown_v2_no_link[OF this, of uu d]
  show ?thesis by (simp add: re_sub_escape_eq backslashed_def)
qed

lemma backslashed_append: "backslashed (a @ b) = backslashed a @ backslashed b"
  by (simp add: backslashed_def)

lemma not_found_sentence:
  assumes "LBR \<notin> set name \<union> set path"
  shows "fst (escape_markdown_v2 uu d (not_found_text name path))
     = [1056, 1077, 1087, 1086, 1079, 1080, 1090, 1086, 1088, 1080, 1081, 32] @ backslashed name
         @ [32, BSL, LPAR] @ backslashed path @ [BSL, RPAR]
         @ [32, 1085, 1077, 32, 1085, 1072, 1081, 1076, 1077, 1085]"
proof -
  have nb: "LBR \<notin> set (not_found_text name path)"
    using assms by (auto simp: not_found_text_def ascii_def)
  have 1: "backslashed [1056, 1077, 1087, 1086, 1079, 1080, 1090, 1086, 1088, 1080, 1081, 32]
      = [1056, 1077, 1087, 1086, 1079, 1080, 1090, 1086, 1088, 1080, 1081, 32]"
    by (simp add: backslashed_def escape_chars_v2_def ascii_def)
  have 2: "backslashed (ascii '' ('') = [32, BSL, LPAR]"
    by (simp add: backslashed_def escape_chars_v2_def ascii_def)
  have 3: "backslashed (ascii '')'') = [BSL, RPAR]"
    by (simp add: backslashed_def escape_chars_v2_def ascii_def)
  have 4: "backslashed [32, 1085, 1077, 32, 1085, 1072, 1081, 1076, 1077, 1085]
      = [32, 1085, 1077, 32, 1085, 1072, 1081, 1076, 1077, 1085]"
    by (simp add: backslashed_def escape_chars_v2_def ascii_def)
  have "fst (escape_markdown_v2 uu d (not_found_text name path)) = backslashed (not_found_text name path)"
    by (rule escape_no_bracket[OF nb])
  also have "\<dots> = [1056, 1077, 1087, 1086, 1079, 1080, 1090, 1086, 1088, 1080, 1081, 32] @ backslashed name
         @ [32, BSL, LPAR] @ backslashed path @ [BSL, RPAR]
         @ [32, 1085, 1077, 32, 1085, 1072, 1081, 1076, 1077, 1085]"
    unfolding not_found_text_def backslashed_append 1 2 3 4 by simp
  finally show ?thesis .
qed

text \<open>
  C6.  When the first release fetch returns 404, the task makes no second fetch: it
  makes one HEAD request for the repository and returns no update.  When that
  request returns 200 nothing else is requested.  When it returns another status or
  fails, the task posts the notice to the notification sink: the header of the error
  notifications, the escaped sentence that the repository \<open>repo_name (repo_path)\<close> is
  not found between backticks, and the time.  A notice within the length limit is
  posted whole as one message; a longer one is cut into chunks, which are posted in
  order up to the first post that fails.  When neither name nor path has an opening
  bracket, the escaped sentence is the Russian for ``Repository'', the name, the path
  in escaped parentheses and the Russian for ``not found'', with a backslash before
  every escaped character of the name and of the path.
\<close>

theorem not_found_existence_check:
  "get_latest e 0 = Response 404 p \<longrightarrow>
     (let uu = uuid4_hex e;
          sentence = escape_markdown_v2 uu 0 (not_found_text name path);
          stamp = escape_markdown_v2 uu (snd sentence) (now_text e);
          notice = ERROR_HEADER @ [BTICK] @ fst sentence @ [BTICK, NL, NL] @ TIME_LABEL @ fst stamp;
          chunks = fst (split_message_markdown uu (snd stamp) notice TELEGRAM_MAX_MESSAGE_LENGTH);
          res = check_repo_for_updates e name path seen initial_state
      in fst res = None
         \<and> (if repo_exists (head_repo e)
             then trace (snd res) = [Get (releases_url path), Head (repo_check_url path)]
             else (\<exists>k. 0 < k \<and> k \<le> length chunks
                      \<and> trace (snd res)
                          = [Get (releases_url path), Head (repo_check_url path)] @ map Post (take k chunks))
                  \<and> (int (length notice) \<le> TELEGRAM_MAX_MESSAGE_LENGTH
                       \<longrightarrow> trace (snd res)
                             = [Get (releases_url path), Head (repo_check_url path), Post notice]))
         \<and> (LBR \<notin> set name \<union> set path \<longrightarrow>
              fst sentence
                = [1056, 1077, 1087, 1086, 1079, 1080, 1090, 1086, 1088, 1080, 1081, 32] @ backslashed name
                    @ [32, BSL, LPAR] @ backslashed path @ [BSL, RPAR]
                    @ [32, 1085, 1077, 32, 1085, 1072, 1081, 1076, 1077, 1085]))"
proof
  assume g: "get_latest e 0 = Response 404 p"
  let ?uu = "uuid4_hex e"
  let ?sentence = "escape_markdown_v2 ?uu 0 (not_found_text name path)"
  let ?stamp = "escape_markdown_v2 ?uu (snd ?sentence) (now_text e)"
  let ?notice = "ERROR_HEADER @ [BTICK] @ fst ?sentence @ [BTICK, NL, NL] @ TIME_LABEL @ fst ?stamp"
  let ?chunks = "fst (split_message_markdown ?uu (snd ?stamp) ?notice TELEGRAM_MAX_MESSAGE_LENGTH)"
  let ?res = "check_repo_for_updates e name path seen initial_state"
  let ?st2 = "emit (Head (repo_check_url path)) (emit (Get (releases_url path)) initial_state)"
  let ?m = "not_found_text name path"
  let ?gh = "[Get (releases_url path), Head (repo_check_url path)]"
  note c = check_404[OF g, of name path seen, unfolded Let_def]
  have ec: "error_chunks e ?m ?st2 = ?chunks"
    unfolding error_chunks_eq by (simp add: draws_initial)
  obtain k where k: "k \<le> length ?chunks" "?chunks \<noteq> [] \<longrightarrow> 0 < k"
    "trace (send_error_notification e ?m ?st2) = trace ?st2 @ map Post (take k ?chunks)"
    using send_error_trace[of e ?m ?st2] unfolding ec by blast
  have "?chunks \<noteq> []" using error_chunks_nonempty[of e ?m ?st2] unfolding ec .
  with k have k0: "0 < k" by blast
  have t2: "trace ?st2 = ?gh" by simp
  have r1: "fst ?res = None"
    unfolding c by (simp split: outcome.splits)
  have r2: "repo_exists (head_repo e) \<Longrightarrow> trace (snd ?res) = ?gh"
    unfolding c by (simp add: repo_exists_def split: outcome.splits)
  have r3: "\<not> repo_exists (head_repo e) \<Longrightarrow> trace (snd ?res) = ?gh @ map Post (take k ?chunks)"
    unfolding c using k(3) t2 by (simp add: repo_exists_def split: outcome.splits)
  have r4: "\<not> repo_exists (head_repo e) \<Longrightarrow> int (length ?notice) \<le> TELEGRAM_MAX_MESSAGE_LENGTH
      \<Longrightarrow> trace (snd ?res) = ?gh @ [Post ?notice]"
  proof -
    assume a: "\<not> repo_exists (head_repo e)" and f: "int (length ?notice) \<le> TELEGRAM_MAX_MESSAGE_LENGTH"
    from f have "?chunks = [?notice]" by (simp add: split_message_markdown_def)
    with k0 have "take k ?chunks = [?notice]" by (cases k) simp_all
    with r3[OF a] show ?thesis by simp
  qed
  have r5: "LBR \<notin> set name \<union> set path \<Longrightarrow> fst ?sentence
      = [1056, 1077, 1087, 1086, 1079, 1080, 1090, 1086, 1088, 1080, 1081, 32] @ backslashed name
          @ [32, BSL, LPAR] @ backslashed path @ [BSL, RPAR]
          @ [32, 1085, 1077, 32, 1085, 1072, 1081, 1076, 1077, 1085]"
    by (rule not_found_sentence)
  show "(let uu = uuid4_hex e;
          sentence = escape_markdown_v2 uu 0 (not_found_text name path);
          stamp = escape_markdown_v2 uu (snd sentence) (now_text e);
          notice = ERROR_HEADER @ [BTICK] @ fst sentence @ [BTICK, NL, NL] @ TIME_LABEL @ fst stamp;
          chunks = fst (split_message_markdown uu (snd stamp) notice TELEGRAM_MAX_MESSAGE_LENGTH);
          res = check_repo_for_updates e name path seen initial_state
      in fst res = None
         \<and> (if repo_exists (head_repo e)
             then trace (snd res) = [Get (releases_url path), Head (repo_check_url path)]
             else (\<exists>k. 0 < k \<and> k \<le> length chunks
                      \<and> trace (snd res)
                          = [Get (releases_url path), Head (repo_check_url path)] @ map Post (take k chunks))
                  \<and> (int (length notice) \<le> TELEGRAM_MAX_MESSAGE_LENGTH
                       \<longrightarrow> trace (snd res)
                             = [Get (releases_url path), Head (repo_check_url path), Post notice]))
         \<and> (LBR \<notin> set name \<union> set path \<longrightarrow>
              fst sentence
                = [1056, 1077, 1087, 1086, 1079, 1080, 1090, 1086, 1088, 1080, 1081, 32] @ backslashed name
                    @ [32, BSL, LPAR] @ backslashed path @ [BSL, RPAR]
                    @ [32, 1085, 1077, 32, 1085, 1072, 1081, 1076, 1077, 1085]))"
    unfolding Let_def
  proof (intro conjI impI)
    show "fst ?res = None" by (rule r1)
  next
    show "if repo_exists (head_repo e) then trace (snd ?res) = ?gh
      else (\<exists>k. 0 < k \<and> k \<le> length ?chunks \<and> trace (snd ?res) = ?gh @ map Post (take k ?chunks))
         \<and> (int (length ?notice) \<le> TELEGRAM_MAX_MESSAGE_LENGTH
              \<longrightarrow> trace (snd ?res) = [Get (releases_url path), Head (repo_check_url path), Post ?notice])"
    proof (cases "repo_exists (head_repo e)")
      case True
      with r2 show ?thesis by simp
    next
      case False
      from r3[OF False] k0 k(1)
      have "\<exists>k. 0 < k \<and> k \<le> length ?chunks \<and> trace (snd ?res) = ?gh @ map Post (take k ?chunks)"
        by blast
      moreover have "int (length ?notice) \<le> TELEGRAM_MAX_MESSAGE_LENGTH
              \<longrightarrow> trace (snd ?res) = [Get (releases_url path), Head (repo_check_url path), Post ?notice]"
        using r4[OF False] by simp
      ultimately show ?thesis using False by simp
    qed
  next
    assume "LBR \<notin> set name \<union> set path"
    then show "fst ?sentence
      = [1056, 1077, 1087, 1086, 1079, 1080, 1090, 1086, 1088, 1080, 1081, 32] @ backslashed name
          @ [32, BSL, LPAR] @ backslashed path @ [BSL, RPAR]
          @ [32, 1085, 1077, 32, 1085, 1072, 1081, 1076, 1077, 1085]" by (rule r5)
  qed
qed

theorem not_found_existence_check_witness:
  "trace (snd (check_repo_for_updates
          ((constant_env (Response 404 (NotRelease [])) (Failure []) (Failure []))
             \<lparr>head_repo := Response 404 (NotRelease [])\<rparr>)
          (ascii ''r'') (ascii ''o/r'') None initial_state))
     = [Get (releases_url (ascii ''o/r'')), Head (repo_check_url (ascii ''o/r'')),
        Post (ERROR_HEADER @ [BTICK]
              @ [1056, 1077, 1087, 1086, 1079, 1080, 1090, 1086, 1088, 1080, 1081, 32] @ ascii ''r''
              @ [32, BSL, LPAR] @ ascii ''o/r'' @ [BSL, RPAR]
              @ [32, 1085, 1077, 32, 1085, 1072, 1081, 1076, 1077, 1085]
              @ [BTICK, NL, NL] @ TIME_LABEL
              @ ascii ''2024'' @ [BSL] @ ascii ''-01'' @ [BSL] @ ascii ''-01 00:00:00'')]"
proof -
  let ?e = "(constant_env (Response 404 (NotRelease [])) (Failure []) (Failure []))
             \<lparr>head_repo := Response 404 (NotRelease [])\<rparr>"
  let ?res = "check_repo_for_updates ?e (ascii ''r'') (ascii ''o/r'') None initial_state"
  let ?sentence = "escape_markdown_v2 (uuid4_hex ?e) 0 (not_found_text (ascii ''r'') (ascii ''o/r''))"
  let ?stamp = "escape_markdown_v2 (uuid4_hex ?e) (snd ?sentence) (now_text ?e)"
  let ?notice = "ERROR_HEADER @ [BTICK] @ fst ?sentence @ [BTICK, NL, NL] @ TIME_LABEL @ fst ?stamp"
  have h1: "get_latest ?e 0 = Response 404 (NotRelease [])"
    by (simp add: constant_env_def)
  have h2: "\<not> repo_exists (head_repo ?e)"
    by (simp add: repo_exists_def)
  have h3: "LBR \<notin> set (ascii ''r'') \<union> set (ascii ''o/r'')"
    by (simp add: ascii_def)
  note T = not_found_existence_check[of ?e "NotRelease []" "ascii ''r''" "ascii ''o/r''" None,
      unfolded Let_def]
  note U = mp[OF T h1]
  from U[THEN conjunct2, THEN conjunct2] h3
  have "fst ?sentence
      = [1056, 1077, 1087, 1086, 1079, 1080, 1090, 1086, 1088, 1080, 1081, 32] @ backslashed (ascii ''r'')
          @ [32, BSL, LPAR] @ backslashed (ascii ''o/r'') @ [BSL, RPAR]
          @ [32, 1085, 1077, 32, 1085, 1072, 1081, 1076, 1077, 1085]"
    by (rule mp)
  then have s: "fst ?sentence
      = [1056, 1077, 1087, 1086, 1079, 1080, 1090, 1086, 1088, 1080, 1081, 32] @ ascii ''r''
          @ [32, BSL, LPAR] @ ascii ''o/r'' @ [BSL, RPAR]
          @ [32, 1085, 1077, 32, 1085, 1072, 1081, 1076, 1077, 1085]"
    by (simp add: backslashed_def escape_chars_v2_def ascii_def)
  have nb: "LBR \<notin> set (now_text ?e)"
    by (simp add: constant_env_def ascii_def)
  have "fst ?stamp = backslashed (now_text ?e)"
    by (rule escape_no_bracket[OF nb])
  then have st: "fst ?stamp = ascii ''2024'' @ [BSL] @ ascii ''-01'' @ [BSL] @ ascii ''-01 00:00:00''"
    by (simp add: constant_env_def backslashed_def escape_chars_v2_def ascii_def)
  have len: "int (length ?notice) \<le> TELEGRAM_MAX_MESSAGE_LENGTH"
    unfolding s st
    by (simp add: ERROR_HEADER_def TIME_LABEL_def TELEGRAM_MAX_MESSAGE_LENGTH_def ascii_def)
  from U[THEN conjunct2, THEN conjunct1] h2
  have "int (length ?notice) \<le> TELEGRAM_MAX_MESSAGE_LENGTH
      \<longrightarrow> trace (snd ?res)
            = [Get (releases_url (ascii ''o/r'')), Head (repo_check_url (ascii ''o/r'')), Post ?notice]"
    by (simp only: if_False) (erule conjunct2)
  with len have "trace (snd ?res)
      = [Get (releases_url (ascii ''o/r'')), Head (repo_check_url (ascii ''o/r'')), Post ?notice]"
    by (rule rev_mp)
  then show ?thesis unfolding s st by simp
qed

section \<open>Properties of the repository task and the coordinator\<close>

lemma build_message_has_text:
  "filter (\<lambda>c. c \<noteq> NL) (fst (build_message e name r s st)) \<noteq> []"
  by (auto simp: build_message_def MSG_TITLE_def Let_def split: prod.splits)

lemma send_telegram_all_ok:
  assumes "\<forall>k. \<exists>code p. telegram_post e k = Response code p \<and> 200 \<le> code \<and> code < 300"
  shows "\<exists>st'. send_telegram_message e message st = (Inr (), st')
           \<and> trace st' = trace st @ map Post (sent_chunks e message st)"
proof -
  obtain cs d where s: "split_message_markdown (uuid4_hex e) (draws st) message TELEGRAM_MAX_MESSAGE_LENGTH = (cs, d)"
    by (cases "split_message_markdown (uuid4_hex e) (draws st) message TELEGRAM_MAX_MESSAGE_LENGTH")
  show ?thesis
    using post_chunks_all_ok[OF assms, of cs "st\<lparr>draws := d\<rparr>"] s
    by (simp add: send_telegram_message_def sent_chunks_def)
qed

lemma announce_sent:
  assumes ok: "\<forall>k. \<exists>code p. telegram_post e k = Response code p \<and> 200 \<le> code \<and> code < 300"
    and new: "Some (rel_id r) \<noteq> seen"
  shows "\<exists>st'. announce e name seen (Release r) st = (Inr (Some (rel_id r)), st')
           \<and> filter is_Post (trace st') \<noteq> []"
proof -
  let ?b = "case body r of None \<Rightarrow> NO_DESCRIPTION | Some b \<Rightarrow> if b = [] then NO_DESCRIPTION else b"
  obtain s st1 where g: "get_openrouter_summary e ?b (summary_language e) st = (s, st1)"
    by (cases "get_openrouter_summary e ?b (summary_language e) st")
  obtain message st2 where b: "build_message e name r s st1 = (message, st2)"
    by (cases "build_message e name r s st1")
  from send_telegram_all_ok[OF ok, of message st2] obtain st3 where
    t: "send_telegram_message e message st2 = (Inr (), st3)"
      "trace st3 = trace st2 @ map Post (sent_chunks e message st2)" by blast
  have "filter (\<lambda>c. c \<noteq> NL) message \<noteq> []"
    using build_message_has_text[of e name r s st1] b by simp
  then have "sent_chunks e message st2 \<noteq> []"
    by (simp add: sent_chunks_def split_message_nonempty)
  then have "filter is_Post (trace st3) \<noteq> []"
    using t(2) by (cases "sent_chunks e message st2") simp_all
  moreover have "announce e name seen (Release r) st = (Inr (Some (rel_id r)), st3)"
    using new g b t(1) by (simp add: announce_def Let_def)
  ultimately show ?thesis by blast
qed

lemma check_new_release:
  assumes g: "get_latest e 0 = Response code (Release r)" and c: "200 \<le> code" "code < 300"
    and ok: "\<forall>k. \<exists>code p. telegram_post e k = Response code p \<and> 200 \<le> code \<and> code < 300"
    and new: "Some (rel_id r) \<noteq> seen"
  shows "\<exists>st'. check_repo_for_updates e name path seen initial_state = (Some (rel_id r), st')
           \<and> filter is_Post (trace st') \<noteq> []"
proof -
  let ?st1 = "emit (Get (releases_url path)) initial_state"
  from c have "code < 500" by simp
  from fetch_latest_once[OF g this]
  have f: "fetch_latest e (releases_url path) initial_state = (Inr (code, Release r), ?st1)" .
  have r: "raise_for_status code (Release r) = Inr ()"
    using c by (simp add: raise_for_status_def)
  from announce_sent[OF ok new, of name ?st1] obtain st' where
    a: "announce e name seen (Release r) ?st1 = (Inr (Some (rel_id r)), st')"
      "filter is_Post (trace st') \<noteq> []" by blast
  have "try_check e name path seen initial_state = (Inr (Some (rel_id r)), st')"
    by (simp add: try_check_def f r a(1))
  then show ?thesis
    using a(2) by (simp add: check_repo_for_updates_def)
qed

lemma check_no_update:
  assumes g: "get_latest e 0 = Response code (Release r)" and c: "200 \<le> code" "code < 300"
    and same: "seen = Some (rel_id r)"
  shows "check_repo_for_updates e name path seen initial_state
           = (None, emit (Get (releases_url path)) initial_state)"
proof -
  let ?st1 = "emit (Get (releases_url path)) initial_state"
  from c have "code < 500" by simp
  from fetch_latest_once[OF g this]
  have f: "fetch_latest e (releases_url path) initial_state = (Inr (code, Release r), ?st1)" .
  have r: "raise_for_status code (Release r) = Inr ()"
    using c by (simp add: raise_for_status_def)
  show ?thesis
    using same by (simp add: check_repo_for_updates_def try_check_def f r announce_def)
qed

lemma commit_results_keeps:
  "(\<forall>x \<in> set rs. fst x = name \<longrightarrow> \<not> truthy (fst (snd x))) \<Longrightarrow>
   commit_results ns rs name = ns name"
proof (induction rs arbitrary: ns)
  case Nil
  then show ?case by simp
next
  case (Cons x rs)
  obtain n res tr where x: "x = (n, res, tr)" by (cases x)
  show ?case
    using Cons.IH[of "if truthy res then ns(n := res) else ns"] Cons.prems x by auto
qed

lemma commit_results_records:
  "distinct (map fst rs) \<Longrightarrow> (name, res, tr) \<in> set rs \<Longrightarrow> truthy res \<Longrightarrow>
   commit_results ns rs name = res"
proof (induction rs arbitrary: ns)
  case Nil
  then show ?case by simp
next
  case (Cons x rs)
  obtain n res' tr' where x: "x = (n, res', tr')" by (cases x)
  show ?case
  proof (cases "x = (name, res, tr)")
    case True
    with Cons.prems x have "\<forall>y \<in> set rs. fst y = name \<longrightarrow> \<not> truthy (fst (snd y))"
      by (auto simp: image_iff)
    from commit_results_keeps[OF this] True Cons.prems(3) x show ?thesis by simp
  next
    case False
    with Cons.prems have "(name, res, tr) \<in> set rs" "distinct (map fst rs)" by auto
    from Cons.IH[OF this(2) this(1) Cons.prems(3)] x show ?thesis by simp
  qed
qed

lemma fst_run_task [simp]: "fst (run_task envs cs (n, p)) = n"
  by (simp add: run_task_def split: prod.splits)

lemma map_fst_run_task: "map fst (map (run_task envs cs) repos) = map fst repos"
  by (induction repos) auto

lemma same_id_no_notification:
  assumes g: "get_latest (envs name) 0 = Response code (Release r)" and c: "200 \<le> code" "code < 300"
    and s: "s name = Some (rel_id r)"
    and m: "(name, path) \<in> set repos" and d: "distinct (map fst repos)"
  shows "(name, None, [Get (releases_url path)]) \<in> set (snd (main envs repos s))
       \<and> fst (main envs repos s) name = s name"
proof -
  from check_no_update[OF g c s, of name path]
  have rt: "run_task envs s (name, path) = (name, None, [Get (releases_url path)])"
    by (simp add: run_task_def)
  let ?rs = "map (run_task envs s) repos"
  from m have ne: "repos \<noteq> []" by auto
  then have mn: "main envs repos s = (commit_results s ?rs, ?rs)"
    by (simp add: main_def Let_def)
  have in_rs: "(name, None, [Get (releases_url path)]) \<in> set ?rs"
    using m rt by (metis image_eqI set_map)
  have "\<forall>x \<in> set ?rs. fst x = name \<longrightarrow> \<not> truthy (fst (snd x))"
  proof (intro ballI impI)
    fix x assume x: "x \<in> set ?rs" and n: "fst x = name"
    then obtain n' p' where np: "(n', p') \<in> set repos" "x = run_task envs s (n', p')" by auto
    with n have "n' = name" by simp
    with np(1) m d have "p' = path" by (meson eq_key_imp_eq_value)
    with np \<open>n' = name\<close> rt show "\<not> truthy (fst (snd x))" by (simp add: truthy_def)
  qed
  from commit_results_keeps[OF this] have "commit_results s ?rs name = s name" .
  with mn in_rs show ?thesis by auto
qed

lemma nonzero_id_recorded:
  assumes g: "get_latest (envs name) 0 = Response code (Release r)" and c: "200 \<le> code" "code < 300"
    and z: "rel_id r \<noteq> 0" and s: "s name \<noteq> Some (rel_id r)"
    and ok: "\<forall>k. \<exists>c p. telegram_post (envs name) k = Response c p \<and> 200 \<le> c \<and> c < 300"
    and m: "(name, path) \<in> set repos" and d: "distinct (map fst repos)"
  shows "(\<exists>tr. (name, Some (rel_id r), tr) \<in> set (snd (main envs repos s)) \<and> filter is_Post tr \<noteq> [])
       \<and> fst (main envs repos s) name = Some (rel_id r)"
proof -
  from s have new: "Some (rel_id r) \<noteq> s name" by auto
  from check_new_release[OF g c ok new, of name path] obtain st' where
    t: "check_repo_for_updates (envs name) name path (s name) initial_state = (Some (rel_id r), st')"
      "filter is_Post (trace st') \<noteq> []" by auto
  then have rt: "run_task envs s (name, path) = (name, Some (rel_id r), trace st')"
    by (simp add: run_task_def)
  let ?rs = "map (run_task envs s) repos"
  from m have ne: "repos \<noteq> []" by auto
  then have mn: "main envs repos s = (commit_results s ?rs, ?rs)"
    by (simp add: main_def Let_def)
  have in_rs: "(name, Some (rel_id r), trace st') \<in> set ?rs"
    using m rt by (metis image_eqI set_map)
  have "distinct (map fst ?rs)" using d by (simp only: map_fst_run_task)
  from commit_results_records[OF this in_rs] z
  have "commit_results s ?rs name = Some (rel_id r)" by (simp add: truthy_def)
  with mn in_rs t(2) show ?thesis by auto
qed

lemma zero_id_run:
  assumes g: "get_latest (envs name) 0 = Response code (Release r)" and c: "200 \<le> code" "code < 300"
    and z: "rel_id r = 0" and s: "s name \<noteq> Some 0"
    and ok: "\<forall>k. \<exists>c p. telegram_post (envs name) k = Response c p \<and> 200 \<le> c \<and> c < 300"
    and m: "(name, path) \<in> set repos" and d: "distinct (map fst repos)"
  shows "(\<exists>tr. (name, Some 0, tr) \<in> set (snd (main envs repos s)) \<and> filter is_Post tr \<noteq> [])
       \<and> fst (main envs repos s) name = s name"
proof -
  from s z have new: "Some (rel_id r) \<noteq> s name" by auto
  from check_new_release[OF g c ok new, of name path] z obtain st' where
    t: "check_repo_for_updates (envs name) name path (s name) initial_state = (Some 0, st')"
      "filter is_Post (trace st') \<noteq> []" by auto
  then have rt: "run_task envs s (name, path) = (name, Some 0, trace st')"
    by (simp add: run_task_def)
  let ?rs = "map (run_task envs s) repos"
  from m have ne: "repos \<noteq> []" by auto
  then have mn: "main envs repos s = (commit_results s ?rs, ?rs)"
    by (simp add: main_def Let_def)
  have in_rs: "(name, Some 0, trace st') \<in> set ?rs"
    using m rt by (metis image_eqI set_map)
  have "\<forall>x \<in> set ?rs. fst x = name \<longrightarrow> \<not> truthy (fst (snd x))"
  proof (intro ballI impI)
    fix x assume x: "x \<in> set ?rs" and n: "fst x = name"
    then obtain n' p' where np: "(n', p') \<in> set repos" "x = run_task envs s (n', p')" by auto
    with n have "n' = name" by simp
    with np(1) m d have "p' = path" by (meson eq_key_imp_eq_value)
    with np \<open>n' = name\<close> rt show "\<not> truthy (fst (snd x))" by (simp add: truthy_def)
  qed
  from commit_results_keeps[OF this] have "commit_results s ?rs name = s name" .
  with mn in_rs t(2) show ?thesis by auto
qed

text \<open>
  C9.  When the latest release of a repository has the id 0, the stored id is not 0
  and every post succeeds, the task posts the notification and returns 0, the
  coordinator leaves the entry of the repository as it was, and a run that starts
  from the saved state posts the notification again.
\<close>

theorem zero_id_not_recorded:
  "get_latest (envs name) 0 = Response code (Release r) \<and> 200 \<le> code \<and> code < 300
   \<and> rel_id r = 0 \<and> current_state name \<noteq> Some 0
   \<and> (\<forall>k. \<exists>c p. telegram_post (envs name) k = Response c p \<and> 200 \<le> c \<and> c < 300)
   \<and> (name, path) \<in> set repos \<and> distinct (map fst repos)
   \<longrightarrow>
     (\<exists>tr. (name, Some 0, tr) \<in> set (snd (main envs repos current_state)) \<and> filter is_Post tr \<noteq> [])
     \<and> fst (main envs repos current_state) name = current_state name
     \<and> (\<exists>tr. (name, Some 0, tr) \<in> set (snd (main envs repos (fst (main envs repos current_state))))
            \<and> filter is_Post tr \<noteq> [])"
proof
  assume h: "get_latest (envs name) 0 = Response code (Release r) \<and> 200 \<le> code \<and> code < 300
   \<and> rel_id r = 0 \<and> current_state name \<noteq> Some 0
   \<and> (\<forall>k. \<exists>c p. telegram_post (envs name) k = Response c p \<and> 200 \<le> c \<and> c < 300)
   \<and> (name, path) \<in> set repos \<and> distinct (map fst repos)"
  then have 1: "(\<exists>tr. (name, Some 0, tr) \<in> set (snd (main envs repos current_state)) \<and> filter is_Post tr \<noteq> [])
       \<and> fst (main envs repos current_state) name = current_state name"
    using zero_id_run[of envs name code r current_state path repos] by blast
  let ?s = "fst (main envs repos current_state)"
  from 1 h have "?s name \<noteq> Some 0" by simp
  with h have 2: "\<exists>tr. (name, Some 0, tr) \<in> set (snd (main envs repos ?s)) \<and> filter is_Post tr \<noteq> []"
    using zero_id_run[of envs name code r ?s path repos] by blast
  from 1 2 show "(\<exists>tr. (name, Some 0, tr) \<in> set (snd (main envs repos current_state)) \<and> filter is_Post tr \<noteq> [])
     \<and> fst (main envs repos current_state) name = current_state name
     \<and> (\<exists>tr. (name, Some 0, tr) \<in> set (snd (main envs repos (fst (main envs repos current_state))))
            \<and> filter is_Post tr \<noteq> [])" by blast
qed

theorem zero_id_not_recorded_witness:
  "(\<exists>tr. (ascii ''r'', Some 0, tr)
        \<in> set (snd (main (\<lambda>n. constant_env (Response 200 (Release (sample_release 0))) (Failure [])
                               (Response 200 (NotRelease [])))
                     [(ascii ''r'', ascii ''o/r'')] [ascii ''r'' \<mapsto> 100]))
        \<and> filter is_Post tr \<noteq> [])
   \<and> fst (main (\<lambda>n. constant_env (Response 200 (Release (sample_release 0))) (Failure [])
                      (Response 200 (NotRelease [])))
            [(ascii ''r'', ascii ''o/r'')] [ascii ''r'' \<mapsto> 100]) (ascii ''r'') = Some 100"
proof -
  let ?envs = "\<lambda>n::ustr. constant_env (Response 200 (Release (sample_release 0))) (Failure [])
                      (Response 200 (NotRelease []))"
  let ?s = "[ascii ''r'' \<mapsto> (100::int)]"
  have h: "get_latest (?envs (ascii ''r'')) 0 = Response 200 (Release (sample_release 0))
     \<and> (200::nat) \<le> 200 \<and> (200::nat) < 300
     \<and> rel_id (sample_release 0) = 0 \<and> ?s (ascii ''r'') \<noteq> Some 0
     \<and> (\<forall>k. \<exists>c p. telegram_post (?envs (ascii ''r'')) k = Response c p \<and> 200 \<le> c \<and> c < 300)
     \<and> (ascii ''r'', ascii ''o/r'') \<in> set [(ascii ''r'', ascii ''o/r'')]
     \<and> distinct (map fst [(ascii ''r'', ascii ''o/r'')])"
    by (simp add: constant_env_def sample_release_def)
  note T = zero_id_not_recorded[of ?envs "ascii ''r''" 200 "sample_release 0" ?s "ascii ''o/r''"
      "[(ascii ''r'', ascii ''o/r'')]"]
  from T h have "(\<exists>tr. (ascii ''r'', Some 0, tr) \<in> set (snd (main ?envs [(ascii ''r'', ascii ''o/r'')] ?s))
        \<and> filter is_Post tr \<noteq> [])
     \<and> fst (main ?envs [(ascii ''r'', ascii ''o/r'')] ?s) (ascii ''r'') = ?s (ascii ''r'')"
    using mp[OF T h] by (intro conjI) (erule conjunct1, erule conjunct2[THEN conjunct1])
  then show ?thesis by simp
qed

text \<open>
  C7.  The claim says that a fetched id that differs from the stored one is stored
  after the notification.  With the stored id 100 and the fetched id 0 the
  notification is posted and the task returns 0, but the saved state still maps the
  repository to 100: the coordinator tests the result for truth, and 0 is false.
  For a fetched id other than 0 the claim holds (\<open>same_id_no_notification\<close>,
  \<open>nonzero_id_recorded\<close>).
\<close>

theorem zero_id_state_not_updated:
  "fst (main (\<lambda>n. constant_env (Response 200 (Release (sample_release 0))) (Failure [])
                     (Response 200 (NotRelease [])))
            [(ascii ''r'', ascii ''o/r'')] [ascii ''r'' \<mapsto> 100]) (ascii ''r'') = Some 100
   \<and> (\<exists>tr. (ascii ''r'', Some 0, tr)
          \<in> set (snd (main (\<lambda>n. constant_env (Response 200 (Release (sample_release 0))) (Failure [])
                               (Response 200 (NotRelease [])))
                     [(ascii ''r'', ascii ''o/r'')] [ascii ''r'' \<mapsto> 100]))
          \<and> filter is_Post tr \<noteq> [])"
proof -
  let ?envs = "\<lambda>n::ustr. constant_env (Response 200 (Release (sample_release 0))) (Failure [])
                      (Response 200 (NotRelease []))"
  let ?s = "[ascii ''r'' \<mapsto> (100::int)]"
  have g: "get_latest (?envs (ascii ''r'')) 0 = Response 200 (Release (sample_release 0))"
    by (simp add: constant_env_def)
  have z: "rel_id (sample_release 0) = 0" by (simp add: sample_release_def)
  have s: "?s (ascii ''r'') \<noteq> Some 0" by simp
  have ok: "\<forall>k. \<exists>c p. telegram_post (?envs (ascii ''r'')) k = Response c p \<and> 200 \<le> c \<and> c < 300"
    by (simp add: constant_env_def)
  have m: "(ascii ''r'', ascii ''o/r'') \<in> set [(ascii ''r'', ascii ''o/r'')]" by simp
  have d: "distinct (map fst [(ascii ''r'', ascii ''o/r'')])" by simp
  have c: "(200::nat) \<le> 200" "(200::nat) < 300" by simp_all
  from zero_id_run[of ?envs "ascii ''r''" 200 "sample_release 0" ?s "ascii ''o/r''"
      "[(ascii ''r'', ascii ''o/r'')]", OF g c z s ok m d]
  show ?thesis by simp
qed

lemma summary_no_description:
  "get_openrouter_summary e NO_DESCRIPTION lang st = (NO_DESCRIPTION, st)"
  by (simp add: get_openrouter_summary_def get_openrouter_summary_with_retry_def
      summary_attempt_def numeral_2_eq_2)

lemma escape_no_description:
  "fst (escape_markdown_v2 uu d NO_DESCRIPTION) = butlast NO_DESCRIPTION @ [BSL, 46]"
proof -
  have "LBR \<notin> set NO_DESCRIPTION" by (simp add: NO_DESCRIPTION_def)
  from escape_no_bracket[OF this, of uu d] show ?thesis
    by (simp add: backslashed_def NO_DESCRIPTION_def escape_chars_v2_def ascii_def)
qed

lemma build_message_eq:
  "build_message e name r s st =
     (MSG_TITLE @ fst (escape_markdown_v2 (uuid4_hex e) (draws st) name) @ [STAR, NL]
        @ MSG_VERSION
        @ fst (escape_markdown_v2 (uuid4_hex e) (snd (escape_markdown_v2 (uuid4_hex e) (draws st) name))
                 (tag_name r))
        @ [BTICK, 32] @ (if prerelease r then PRE_RELEASE else []) @ [NL]
        @ MSG_DATE
        @ fst (escape_markdown_v2 (uuid4_hex e)
                 (snd (escape_markdown_v2 (uuid4_hex e)
                         (snd (escape_markdown_v2 (uuid4_hex e) (draws st) name)) (tag_name r)))
                 (take 10 (published_at r)))
        @ [NL] @ MSG_RULE @ [NL, NL] @ s @ [NL, NL] @ MSG_RULE @ [NL] @ MSG_LINK @ html_url r @ [RPAR],
      st\<lparr>draws := snd (escape_markdown_v2 (uuid4_hex e)
                 (snd (escape_markdown_v2 (uuid4_hex e)
                         (snd (escape_markdown_v2 (uuid4_hex e) (draws st) name)) (tag_name r)))
                 (take 10 (published_at r)))\<rparr>)"
  by (simp add: build_message_def case_prod_beta Let_def)

lemma announce_no_body:
  assumes "body r = None \<or> body r = Some []" and "Some (rel_id r) \<noteq> seen"
    and b: "build_message e name r NO_DESCRIPTION st = (message, st2)"
  shows "snd (announce e name seen (Release r) st) = snd (send_telegram_message e message st2)
       \<and> (\<forall>st3. send_telegram_message e message st2 = (Inr (), st3)
              \<longrightarrow> announce e name seen (Release r) st = (Inr (Some (rel_id r)), st3))"
proof -
  have ob: "(case body r of None \<Rightarrow> NO_DESCRIPTION | Some b \<Rightarrow> if b = [] then NO_DESCRIPTION else b)
      = NO_DESCRIPTION"
    using assms(1) by auto
  have a: "announce e name seen (Release r) st
      = (case send_telegram_message e message st2 of
           (Inl ex, st3) \<Rightarrow> (Inl ex, st3)
         | (Inr u, st3) \<Rightarrow> (Inr (Some (rel_id r)), st3))"
    using assms(2) by (simp add: announce_def ob summary_no_description b Let_def)
  show ?thesis
    unfolding a by (auto split: prod.splits sum.splits)
qed

lemma handler_trace:
  "\<exists>rest. trace (snd (check_repo_for_updates e name path seen st))
            = trace (snd (try_check e name path seen st)) @ rest
          \<and> filter is_Chat rest = []"
proof -
  obtain x st1 where t: "try_check e name path seen st = (x, st1)"
    by (cases "try_check e name path seen st")
  have se: "\<And>m s. \<exists>rest. trace (send_error_notification e m s) = trace s @ rest \<and> filter is_Chat rest = []"
  proof -
    fix m s
    from send_error_trace[of e m s] obtain k where
      "trace (send_error_notification e m s) = trace s @ map Post (take k (error_chunks e m s))" by blast
    then show "\<exists>rest. trace (send_error_notification e m s) = trace s @ rest \<and> filter is_Chat rest = []"
      by simp
  qed
  show ?thesis
  proof (cases x)
    case (Inr res)
    with t show ?thesis by (simp add: check_repo_for_updates_def)
  next
    case (Inl ex)
    show ?thesis
    proof (cases ex)
      case (OtherError msg)
      with Inl t se[of "check_failed_text name msg" st1] show ?thesis
        by (simp add: check_repo_for_updates_def)
    next
      case (HTTPStatusError code p)
      show ?thesis
      proof (cases "code = 404")
        case False
        with HTTPStatusError Inl t show ?thesis by (simp add: check_repo_for_updates_def)
      next
        case True
        let ?st2 = "emit (Head (repo_check_url path)) st1"
        from se[of "not_found_text name path" ?st2] obtain rest where
          r: "trace (send_error_notification e (not_found_text name path) ?st2) = trace ?st2 @ rest"
            "filter is_Chat rest = []" by blast
        have 1: "trace ?st2 = trace st1 @ [Head (repo_check_url path)]" by simp
        have "check_repo_for_updates e name path seen st = (None, ?st2)
            \<or> check_repo_for_updates e name path seen st
                = (None, send_error_notification e (not_found_text name path) ?st2)"
          using True HTTPStatusError Inl t
          by (simp add: check_repo_for_updates_def Let_def split: outcome.splits)
        then show ?thesis
        proof
          assume "check_repo_for_updates e name path seen st = (None, ?st2)"
          then have "trace (snd (check_repo_for_updates e name path seen st))
              = trace (snd (try_check e name path seen st)) @ [Head (repo_check_url path)]
              \<and> filter is_Chat [Head (repo_check_url path)] = []"
            using t 1 by simp
          then show ?thesis by blast
        next
          assume "check_repo_for_updates e name path seen st
                = (None, send_error_notification e (not_found_text name path) ?st2)"
          then have "trace (snd (check_repo_for_updates e name path seen st))
              = trace (snd (try_check e name path seen st)) @ ([Head (repo_check_url path)] @ rest)
              \<and> filter is_Chat ([Head (repo_check_url path)] @ rest) = []"
            using t 1 r by simp
          then show ?thesis by blast
        qed
      qed
    qed
  qed
qed

text \<open>
  C10.  When the latest release is new and its \<open>body\<close> is null or the empty string,
  the summary is the constant \<open>NO_DESCRIPTION\<close>, which the summary call returns at once:
  no chat completion is requested, and the escaper, which would put a backslash before
  the full stop, is not applied.  The message of the notification therefore holds the
  constant as it is, as a paragraph of its own between the two rules: its last
  character is a full stop that follows a letter and no backslash.  The message is
  posted to the notification sink after the one fetch, whole when it is within the
  length limit.
\<close>

theorem empty_body_summary_unescaped:
  "get_latest e 0 = Response code (Release r) \<and> 200 \<le> code \<and> code < 300
   \<and> (body r = None \<or> body r = Some []) \<and> Some (rel_id r) \<noteq> seen \<longrightarrow>
     (let uu = uuid4_hex e;
          n = escape_markdown_v2 uu 0 name;
          v = escape_markdown_v2 uu (snd n) (tag_name r);
          t = escape_markdown_v2 uu (snd v) (take 10 (published_at r));
          pre = MSG_TITLE @ fst n @ [STAR, NL]
                  @ MSG_VERSION @ fst v @ [BTICK, 32] @ (if prerelease r then PRE_RELEASE else []) @ [NL]
                  @ MSG_DATE @ fst t @ [NL]
                  @ MSG_RULE @ [NL, NL];
          message = pre @ NO_DESCRIPTION @ [NL, NL] @ MSG_RULE @ [NL] @ MSG_LINK @ html_url r @ [RPAR];
          chunks = fst (split_message_markdown uu (snd t) message TELEGRAM_MAX_MESSAGE_LENGTH);
          res = check_repo_for_updates e name path seen initial_state
      in get_openrouter_summary e NO_DESCRIPTION (summary_language e) st = (NO_DESCRIPTION, st)
         \<and> fst (escape_markdown_v2 uu d NO_DESCRIPTION) = butlast NO_DESCRIPTION @ [BSL, 46]
         \<and> message ! (length pre + 12) = 46 \<and> message ! (length pre + 11) \<noteq> BSL
         \<and> filter is_Chat (trace (snd res)) = []
         \<and> (\<exists>k rest. 0 < k \<and> k \<le> length chunks
               \<and> trace (snd res) = [Get (releases_url path)] @ map Post (take k chunks) @ rest)
         \<and> (int (length message) \<le> TELEGRAM_MAX_MESSAGE_LENGTH
              \<longrightarrow> (\<exists>rest. trace (snd res) = [Get (releases_url path), Post message] @ rest))
         \<and> ((\<forall>k. \<exists>c p. telegram_post e k = Response c p \<and> 200 \<le> c \<and> c < 300)
              \<longrightarrow> fst res = Some (rel_id r)
                  \<and> trace (snd res) = [Get (releases_url path)] @ map Post chunks))"
proof
  assume h: "get_latest e 0 = Response code (Release r) \<and> 200 \<le> code \<and> code < 300
   \<and> (body r = None \<or> body r = Some []) \<and> Some (rel_id r) \<noteq> seen"
  let ?uu = "uuid4_hex e"
  let ?n = "escape_markdown_v2 ?uu 0 name"
  let ?v = "escape_markdown_v2 ?uu (snd ?n) (tag_name r)"
  let ?t = "escape_markdown_v2 ?uu (snd ?v) (take 10 (published_at r))"
  let ?pre = "MSG_TITLE @ fst ?n @ [STAR, NL]
                  @ MSG_VERSION @ fst ?v @ [BTICK, 32] @ (if prerelease r then PRE_RELEASE else []) @ [NL]
                  @ MSG_DATE @ fst ?t @ [NL]
                  @ MSG_RULE @ [NL, NL]"
  let ?message = "?pre @ NO_DESCRIPTION @ [NL, NL] @ MSG_RULE @ [NL] @ MSG_LINK @ html_url r @ [RPAR]"
  let ?chunks = "fst (split_message_markdown ?uu (snd ?t) ?message TELEGRAM_MAX_MESSAGE_LENGTH)"
  let ?res = "check_repo_for_updates e name path seen initial_state"
  let ?st1 = "emit (Get (releases_url path)) initial_state"
  let ?st2 = "?st1\<lparr>draws := snd ?t\<rparr>"
  from h have g: "get_latest e 0 = Response code (Release r)" and c: "200 \<le> code" "code < 300"
    and nb: "body r = None \<or> body r = Some []" and new: "Some (rel_id r) \<noteq> seen" by simp_all
  from c have "code < 500" by simp
  from fetch_latest_once[OF g this]
  have f: "fetch_latest e (releases_url path) initial_state = (Inr (code, Release r), ?st1)" .
  have rs: "raise_for_status code (Release r) = Inr ()"
    using c by (simp add: raise_for_status_def)
  have tc: "try_check e name path seen initial_state = announce e name seen (Release r) ?st1"
    by (simp add: try_check_def f rs)
  have bm: "build_message e name r NO_DESCRIPTION ?st1 = (?message, ?st2)"
    unfolding build_message_eq by (simp add: draws_initial)
  note an = announce_no_body[OF nb new bm]
  have sc: "sent_chunks e ?message ?st2 = ?chunks"
    by (simp add: sent_chunks_def)
  have "filter (\<lambda>c. c \<noteq> NL) ?message \<noteq> []"
    by (simp add: MSG_TITLE_def)
  then have ne: "?chunks \<noteq> []"
    by (rule split_message_nonempty)
  from send_telegram_trace[of e ?message ?st2] obtain k where
    k: "k \<le> length ?chunks" "?chunks \<noteq> [] \<longrightarrow> 0 < k"
       "trace (snd (send_telegram_message e ?message ?st2)) = trace ?st2 @ map Post (take k ?chunks)"
    unfolding sc by blast
  from k(2) ne have k0: "0 < k" by blast
  have ta: "trace (snd (try_check e name path seen initial_state))
      = [Get (releases_url path)] @ map Post (take k ?chunks)"
    unfolding tc an[THEN conjunct1] k(3) by simp
  from handler_trace[of e name path seen initial_state] obtain rest where
    rest: "trace (snd ?res) = [Get (releases_url path)] @ map Post (take k ?chunks) @ rest"
      "filter is_Chat rest = []"
    unfolding ta by auto
  have r1: "get_openrouter_summary e NO_DESCRIPTION (summary_language e) st = (NO_DESCRIPTION, st)"
    by (rule summary_no_description)
  have r2: "fst (escape_markdown_v2 ?uu d NO_DESCRIPTION) = butlast NO_DESCRIPTION @ [BSL, 46]"
    by (rule escape_no_description)
  have r3: "?message ! (length ?pre + 12) = 46"
    by (simp only: nth_append_length_plus) (simp add: NO_DESCRIPTION_def)
  have r4: "?message ! (length ?pre + 11) \<noteq> BSL"
    by (simp only: nth_append_length_plus) (simp add: NO_DESCRIPTION_def)
  have r5: "filter is_Chat (trace (snd ?res)) = []"
    unfolding rest(1) using rest(2) by simp
  have r6: "\<exists>k rest. 0 < k \<and> k \<le> length ?chunks
               \<and> trace (snd ?res) = [Get (releases_url path)] @ map Post (take k ?chunks) @ rest"
    using k0 k(1) rest(1) by blast
  have r7: "int (length ?message) \<le> TELEGRAM_MAX_MESSAGE_LENGTH
              \<longrightarrow> (\<exists>rest. trace (snd ?res) = [Get (releases_url path), Post ?message] @ rest)"
  proof
    assume "int (length ?message) \<le> TELEGRAM_MAX_MESSAGE_LENGTH"
    then have "?chunks = [?message]" by (simp add: split_message_markdown_def)
    with k0 have "take k ?chunks = [?message]" by (cases k) simp_all
    with rest(1) have "trace (snd ?res) = [Get (releases_url path), Post ?message] @ rest" by simp
    then show "\<exists>rest. trace (snd ?res) = [Get (releases_url path), Post ?message] @ rest" by blast
  qed
  have r8: "(\<forall>k. \<exists>c p. telegram_post e k = Response c p \<and> 200 \<le> c \<and> c < 300)
              \<longrightarrow> fst ?res = Some (rel_id r)
                  \<and> trace (snd ?res) = [Get (releases_url path)] @ map Post ?chunks"
  proof
    assume ok: "\<forall>k. \<exists>c p. telegram_post e k = Response c p \<and> 200 \<le> c \<and> c < 300"
    from send_telegram_all_ok[OF ok, of ?message ?st2] obtain st3 where
      s3: "send_telegram_message e ?message ?st2 = (Inr (), st3)"
          "trace st3 = trace ?st2 @ map Post ?chunks"
      unfolding sc by blast
    from an[THEN conjunct2] s3(1)
    have "announce e name seen (Release r) ?st1 = (Inr (Some (rel_id r)), st3)" by blast
    then have "?res = (Some (rel_id r), st3)"
      by (simp add: check_repo_for_updates_def tc)
    with s3(2) show "fst ?res = Some (rel_id r)
        \<and> trace (snd ?res) = [Get (releases_url path)] @ map Post ?chunks" by simp
  qed
  show "(let uu = uuid4_hex e;
          n = escape_markdown_v2 uu 0 name;
          v = escape_markdown_v2 uu (snd n) (tag_name r);
          t = escape_markdown_v2 uu (snd v) (take 10 (published_at r));
          pre = MSG_TITLE @ fst n @ [STAR, NL]
                  @ MSG_VERSION @ fst v @ [BTICK, 32] @ (if prerelease r then PRE_RELEASE else []) @ [NL]
                  @ MSG_DATE @ fst t @ [NL]
                  @ MSG_RULE @ [NL, NL];
          message = pre @ NO_DESCRIPTION @ [NL, NL] @ MSG_RULE @ [NL] @ MSG_LINK @ html_url r @ [RPAR];
          chunks = fst (split_message_markdown uu (snd t) message TELEGRAM_MAX_MESSAGE_LENGTH);
          res = check_repo_for_updates e name path seen initial_state
      in get_openrouter_summary e NO_DESCRIPTION (summary_language e) st = (NO_DESCRIPTION, st)
         \<and> fst (escape_markdown_v2 uu d NO_DESCRIPTION) = butlast NO_DESCRIPTION @ [BSL, 46]
         \<and> message ! (length pre + 12) = 46 \<and> message ! (length pre + 11) \<noteq> BSL
         \<and> filter is_Chat (trace (snd res)) = []
         \<and> (\<exists>k rest. 0 < k \<and> k \<le> length chunks
               \<and> trace (snd res) = [Get (releases_url path)] @ map Post (take k chunks) @ rest)
         \<and> (int (length message) \<le> TELEGRAM_MAX_MESSAGE_LENGTH
              \<longrightarrow> (\<exists>rest. trace (snd res) = [Get (releases_url path), Post message] @ rest))
         \<and> ((\<forall>k. \<exists>c p. telegram_post e k = Response c p \<and> 200 \<le> c \<and> c < 300)
              \<longrightarrow> fst res = Some (rel_id r)
                  \<and> trace (snd res) = [Get (releases_url path)] @ map Post chunks))"
    unfolding Let_def
    by (intro conjI) (rule r1 r2 r3 r4 r5 r6 r7 r8)+
qed

theorem empty_body_summary_unescaped_witness:
  "fst (check_repo_for_updates
          (constant_env (Response 200 (Release (sample_release 5))) (Failure [])
             (Response 200 (NotRelease [])))
          (ascii ''r'') (ascii ''o/r'') None initial_state) = Some 5
   \<and> trace (snd (check_repo_for_updates
          (constant_env (Response 200 (Release (sample_release 5))) (Failure [])
             (Response 200 (NotRelease [])))
          (ascii ''r'') (ascii ''o/r'') None initial_state))
     = [Get (releases_url (ascii ''o/r'')),
        Post (MSG_TITLE @ ascii ''r'' @ [STAR, NL]
              @ MSG_VERSION @ ascii ''v1'' @ [BSL] @ ascii ''.0'' @ [BTICK, 32, NL]
              @ MSG_DATE @ ascii ''2024'' @ [BSL] @ ascii ''-01'' @ [BSL] @ ascii ''-01'' @ [NL]
              @ MSG_RULE @ [NL, NL]
              @ NO_DESCRIPTION @ [NL, NL]
              @ MSG_RULE @ [NL]
              @ MSG_LINK @ ascii ''https://github.com/o/r/releases/1'' @ [RPAR])]"
proof -
  let ?e = "constant_env (Response 200 (Release (sample_release 5))) (Failure [])
             (Response 200 (NotRelease []))"
  let ?r = "sample_release 5"
  let ?uu = "uuid4_hex ?e"
  let ?n = "escape_markdown_v2 ?uu 0 (ascii ''r'')"
  let ?v = "escape_markdown_v2 ?uu (snd ?n) (tag_name ?r)"
  let ?t = "escape_markdown_v2 ?uu (snd ?v) (take 10 (published_at ?r))"
  let ?message = "(MSG_TITLE @ fst ?n @ [STAR, NL]
                  @ MSG_VERSION @ fst ?v @ [BTICK, 32] @ (if prerelease ?r then PRE_RELEASE else []) @ [NL]
                  @ MSG_DATE @ fst ?t @ [NL]
                  @ MSG_RULE @ [NL, NL])
                 @ NO_DESCRIPTION @ [NL, NL] @ MSG_RULE @ [NL] @ MSG_LINK @ html_url ?r @ [RPAR]"
  let ?chunks = "fst (split_message_markdown ?uu (snd ?t) ?message TELEGRAM_MAX_MESSAGE_LENGTH)"
  let ?res = "check_repo_for_updates ?e (ascii ''r'') (ascii ''o/r'') None initial_state"
  have h: "get_latest ?e 0 = Response 200 (Release ?r) \<and> (200::nat) \<le> 200 \<and> (200::nat) < 300
      \<and> (body ?r = None \<or> body ?r = Some []) \<and> Some (rel_id ?r) \<noteq> (None::int option)"
    by (simp add: constant_env_def sample_release_def)
  have ok: "\<forall>k. \<exists>c p. telegram_post ?e k = Response c p \<and> 200 \<le> c \<and> c < 300"
    by (simp add: constant_env_def)
  note T = empty_body_summary_unescaped[where e = ?e and code = 200 and r = ?r and seen = None
      and name = "ascii ''r''" and path = "ascii ''o/r''", unfolded Let_def]
  note U = mp[OF T h]
  note last = U[THEN conjunct2, THEN conjunct2, THEN conjunct2, THEN conjunct2, THEN conjunct2,
      THEN conjunct2, THEN conjunct2]
  from mp[OF last ok]
  have r: "fst ?res = Some (rel_id ?r)"
    "trace (snd ?res) = [Get (releases_url (ascii ''o/r''))] @ map Post ?chunks"
    by (rule conjunct1, rule conjunct2)
  have n: "fst ?n = ascii ''r''"
    by (subst escape_no_bracket) (simp_all add: backslashed_def escape_chars_v2_def ascii_def)
  have v: "fst ?v = ascii ''v1'' @ [BSL] @ ascii ''.0''"
    by (subst escape_no_bracket)
       (simp_all add: sample_release_def backslashed_def escape_chars_v2_def ascii_def)
  have t: "fst ?t = ascii ''2024'' @ [BSL] @ ascii ''-01'' @ [BSL] @ ascii ''-01''"
    by (subst escape_no_bracket)
       (simp_all add: sample_release_def backslashed_def escape_chars_v2_def ascii_def)
  have m: "?message = MSG_TITLE @ ascii ''r'' @ [STAR, NL]
              @ MSG_VERSION @ ascii ''v1'' @ [BSL] @ ascii ''.0'' @ [BTICK, 32, NL]
              @ MSG_DATE @ ascii ''2024'' @ [BSL] @ ascii ''-01'' @ [BSL] @ ascii ''-01'' @ [NL]
              @ MSG_RULE @ [NL, NL]
              @ NO_DESCRIPTION @ [NL, NL]
              @ MSG_RULE @ [NL]
              @ MSG_LINK @ ascii ''https://github.com/o/r/releases/1'' @ [RPAR]"
    unfolding n v t by (simp add: sample_release_def)
  have len: "int (length ?message) \<le> TELEGRAM_MAX_MESSAGE_LENGTH"
    unfolding m
    by (simp add: MSG_TITLE_def MSG_VERSION_def MSG_DATE_def MSG_RULE_def MSG_LINK_def
        NO_DESCRIPTION_def TELEGRAM_MAX_MESSAGE_LENGTH_def ascii_def)
  have c: "?chunks = [?message]"
    using len by (simp only: split_message_markdown_def if_True fst_conv)
  have i: "rel_id ?r = 5" by (simp add: sample_release_def)
  from r(1) have 1: "fst ?res = Some 5" unfolding i .
  from r(2) have 2: "trace (snd ?res) = [Get (releases_url (ascii ''o/r'')), Post ?message]"
    unfolding c by simp
  from 1 2[unfolded m] show ?thesis by (intro conjI)
qed

section \<open>Properties of the fallback summarizer\<close>

lemma re_scan_drop: "re_scan m k s = re_scan m 0 (drop k s)"
proof (induction s arbitrary: k)
  case Nil
  then show ?case by simp
next
  case (Cons c cs)
  show ?case
  proof (cases k)
    case 0
    then show ?thesis by simp
  next
    case (Suc j)
    then show ?thesis using Cons.IH[of j] by simp
  qed
qed

lemma strip_markers_filter:
  "strip_markers s = filter (\<lambda>x. x \<notin> set (ascii ''*_`~#>'')) s"
  unfolding strip_markers_def re_sub_const_def re_scan_class
  by (induction s) simp_all

lemma strip_links_no_bracket: "LBR \<notin> set s \<Longrightarrow> strip_links s = s"
  unfolding strip_links_def re_sub_group1_def
  by (simp add: re_scan_no_bracket) (induction s, simp_all)

lemma re_scan_md_prefix:
  "LBR \<notin> set pre \<Longrightarrow> re_scan match_md_link 0 (pre @ s) = map Lit pre @ re_scan match_md_link 0 s"
  by (induction pre) (auto simp: match_md_link_def)

lemma lazy_url_simple:
  "RPAR \<notin> set url \<Longrightarrow> NL \<notin> set url \<Longrightarrow> lazy_url (url @ RPAR # rest) = Some (Suc (length url))"
  by (induction url) auto

lemma lazy_label_simple:
  assumes "RPAR \<notin> set url" "NL \<notin> set url"
  shows "RBR \<notin> set label \<Longrightarrow> NL \<notin> set label \<Longrightarrow>
     lazy_label (label @ RBR # LPAR # url @ RPAR # rest)
       = Some (length label, length label + length url + 3)"
proof (induction label)
  case Nil
  then show ?case using lazy_url_simple[OF assms, of rest] by simp
next
  case (Cons c cs)
  then show ?case by simp
qed

lemma concat_tokens_Lit:
  "concat (map (\<lambda>t. case t of Lit c \<Rightarrow> [c] | Match w g \<Rightarrow> g) (map Lit xs)) = xs"
  by (induction xs) simp_all

lemma strip_links_simple:
  assumes "LBR \<notin> set pre" "RBR \<notin> set label" "NL \<notin> set label"
    "RPAR \<notin> set url" "NL \<notin> set url"
  shows "strip_links (pre @ [LBR] @ label @ [RBR, LPAR] @ url @ [RPAR] @ rest)
           = pre @ label @ strip_links rest"
proof -
  let ?x = "label @ RBR # LPAR # url @ RPAR # rest"
  let ?n = "length label + length url + 3"
  let ?c = "\<lambda>t. case t of Lit c \<Rightarrow> [c] | Match w g \<Rightarrow> g"
  have m: "match_md_link (LBR # ?x) = Some (Suc ?n, label)"
    using lazy_label_simple[OF assms(4,5,2,3), of rest] by (simp add: match_md_link_def)
  have "?x = (label @ [RBR, LPAR] @ url @ [RPAR]) @ rest" by simp
  moreover have "length (label @ [RBR, LPAR] @ url @ [RPAR]) = ?n" by simp
  ultimately have d: "drop ?n ?x = rest" by (metis append_eq_conv_conj)
  have "re_scan match_md_link 0 (LBR # ?x) = Match (take (Suc ?n) (LBR # ?x)) label # re_scan match_md_link ?n ?x"
    by (simp only: re_scan.simps m option.case prod.case diff_Suc_1)
  also have "re_scan match_md_link ?n ?x = re_scan match_md_link 0 rest"
    by (subst re_scan_drop) (simp only: d)
  finally have r: "re_scan match_md_link 0 (LBR # ?x)
      = Match (take (Suc ?n) (LBR # ?x)) label # re_scan match_md_link 0 rest" .
  have "pre @ [LBR] @ label @ [RBR, LPAR] @ url @ [RPAR] @ rest = pre @ LBR # ?x" by simp
  then have "strip_links (pre @ [LBR] @ label @ [RBR, LPAR] @ url @ [RPAR] @ rest)
      = concat (map ?c (map Lit pre @ Match (take (Suc ?n) (LBR # ?x)) label
                          # re_scan match_md_link 0 rest))"
    unfolding strip_links_def re_sub_group1_def by (simp only: re_scan_md_prefix[OF assms(1)] r)
  also have "\<dots> = pre @ label @ concat (map ?c (re_scan match_md_link 0 rest))"
    by (simp only: map_append concat_append list.map concat.simps token.case concat_tokens_Lit)
  finally show ?thesis by (simp only: strip_links_def re_sub_group1_def)
qed

lemma is_space_NL: "is_space NL"
  by (simp add: is_space_def)

lemma ws_then_nl_props:
  "ws_then_nl s = Some n \<Longrightarrow>
     0 < n \<and> n \<le> length s \<and> (\<forall>c \<in> set (take n s). is_space c) \<and> (\<forall>v. drop n s \<noteq> NL # v)"
proof (induction s arbitrary: n)
  case Nil
  then show ?case by simp
next
  case (Cons c cs)
  from Cons.prems have sp: "is_space c" by (simp split: if_splits)
  show ?case
  proof (cases "ws_then_nl cs")
    case (Some k)
    with Cons.prems sp have n: "n = Suc k" by simp
    from Cons.IH[OF Some] sp show ?thesis unfolding n by simp
  next
    case None
    with Cons.prems sp have c: "c = NL" and n: "n = Suc (length (takeWhile (\<lambda>x. x = NL) cs))"
      by (simp_all split: if_splits)
    have l: "length (takeWhile (\<lambda>x. x = NL) cs) \<le> length cs" by (rule length_takeWhile_le)
    have t: "take (length (takeWhile (\<lambda>x. x = NL) cs)) cs = takeWhile (\<lambda>x. x = NL) cs"
      by (rule takeWhile_eq_take[symmetric])
    have d: "drop (length (takeWhile (\<lambda>x. x = NL) cs)) cs = dropWhile (\<lambda>x. x = NL) cs"
      by (rule dropWhile_eq_drop[symmetric])
    have a: "\<forall>x \<in> set (takeWhile (\<lambda>x. x = NL) cs). is_space x"
      using is_space_NL by (auto dest: set_takeWhileD)
    have h: "\<forall>v. dropWhile (\<lambda>x. x = NL) cs \<noteq> NL # v"
    proof (intro allI notI)
      fix v assume e: "dropWhile (\<lambda>x. x = NL) cs = NL # v"
      then have "dropWhile (\<lambda>x. x = NL) cs \<noteq> []" by simp
      from hd_dropWhile[OF this] show False unfolding e by simp
    qed
    show ?thesis unfolding n using l sp a h by (simp add: t d)
  qed
qed

lemma match_blank_props:
  assumes "match_blank s = Some (n, g)"
  shows "g = [] \<and> 0 < n \<and> n \<le> length s \<and> (\<forall>c \<in> set (take n s). is_space c)
       \<and> (\<forall>v. drop n s \<noteq> NL # v)"
proof (cases s)
  case Nil
  with assms show ?thesis by (simp add: match_blank_def)
next
  case (Cons c cs)
  with assms have c: "c = NL" by (simp add: match_blank_def split: if_splits)
  with assms Cons obtain k where k: "ws_then_nl cs = Some k" "n = Suc k" "g = []"
    by (auto simp: match_blank_def)
  from ws_then_nl_props[OF k(1)] show ?thesis
    unfolding k(2) Cons c using k(3) is_space_NL by simp
qed

lemma match_blank_NL_NL: "match_blank (NL # NL # cs) \<noteq> None"
  by (cases "ws_then_nl cs") (simp_all add: match_blank_def is_space_NL)

lemma match_blank_starts: "match_blank (c # cs) \<noteq> None \<Longrightarrow> c = NL"
  by (simp add: match_blank_def split: if_splits)

lemma nl_pair_Cons:
  "(\<exists>u v. a # xs = u @ [NL, NL] @ v) \<longleftrightarrow> (a = NL \<and> (\<exists>v. xs = NL # v)) \<or> (\<exists>u v. xs = u @ [NL, NL] @ v)"
proof
  assume "\<exists>u v. a # xs = u @ [NL, NL] @ v"
  then obtain u v where e: "a # xs = u @ [NL, NL] @ v" by blast
  show "(a = NL \<and> (\<exists>v. xs = NL # v)) \<or> (\<exists>u v. xs = u @ [NL, NL] @ v)"
  proof (cases u)
    case Nil
    with e show ?thesis by simp
  next
    case (Cons b u')
    with e have "xs = u' @ [NL, NL] @ v" by simp
    then show ?thesis by blast
  qed
next
  assume "(a = NL \<and> (\<exists>v. xs = NL # v)) \<or> (\<exists>u v. xs = u @ [NL, NL] @ v)"
  then show "\<exists>u v. a # xs = u @ [NL, NL] @ v"
  proof
    assume "a = NL \<and> (\<exists>v. xs = NL # v)"
    then obtain v where "a # xs = [] @ [NL, NL] @ v" by auto
    then show ?thesis by blast
  next
    assume "\<exists>u v. xs = u @ [NL, NL] @ v"
    then obtain u v where "xs = u @ [NL, NL] @ v" by blast
    then have "a # xs = (a # u) @ [NL, NL] @ v" by simp
    then show ?thesis by blast
  qed
qed

lemma re_sub_blank_Cons:
  "re_sub_const match_blank [NL] (c # cs) =
     (case match_blank (c # cs) of
        None \<Rightarrow> c # re_sub_const match_blank [NL] cs
      | Some (n, g) \<Rightarrow> NL # re_sub_const match_blank [NL] (drop (n - 1) cs))"
proof (cases "match_blank (c # cs)")
  case None
  then show ?thesis by (simp add: re_sub_const_def)
next
  case (Some ng)
  obtain n g where ng: "ng = (n, g)" by (cases ng)
  have "re_scan match_blank (n - 1) cs = re_scan match_blank 0 (drop (n - 1) cs)"
    by (rule re_scan_drop)
  then show ?thesis by (simp add: re_sub_const_def Some ng)
qed

lemma re_sub_blank_props:
  "(\<forall>u v. re_sub_const match_blank [NL] s \<noteq> u @ [NL, NL] @ v)
   \<and> (\<forall>v. re_sub_const match_blank [NL] s = NL # v \<longrightarrow> (\<exists>w. s = NL # w))
   \<and> filter (\<lambda>x. \<not> is_space x) (re_sub_const match_blank [NL] s) = filter (\<lambda>x. \<not> is_space x) s"
proof (induction s rule: length_induct)
  case (1 s)
  let ?f = "re_sub_const match_blank [NL]"
  show ?case
  proof (cases s)
    case Nil
    then show ?thesis by (simp add: re_sub_const_def)
  next
    case (Cons c cs)
    show ?thesis
    proof (cases "match_blank (c # cs)")
      case None
      have f: "?f (c # cs) = c # ?f cs" by (simp add: re_sub_blank_Cons None)
      have len: "length cs < length s" using Cons by simp
      note ih0 = 1[rule_format, OF len]
      have ih: "\<forall>u v. ?f cs \<noteq> u @ [NL, NL] @ v"
        "\<forall>v. ?f cs = NL # v \<longrightarrow> (\<exists>w. cs = NL # w)"
        "filter (\<lambda>x. \<not> is_space x) (?f cs) = filter (\<lambda>x. \<not> is_space x) cs"
        by (rule ih0[THEN conjunct1], rule ih0[THEN conjunct2, THEN conjunct1],
            rule ih0[THEN conjunct2, THEN conjunct2])
      have "\<not> (c = NL \<and> (\<exists>v. ?f cs = NL # v))"
      proof
        assume a: "c = NL \<and> (\<exists>v. ?f cs = NL # v)"
        with ih(2) obtain w where "cs = NL # w" by blast
        with a None match_blank_NL_NL[of w] show False by simp
      qed
      with ih(1) have 1: "\<forall>u v. ?f (c # cs) \<noteq> u @ [NL, NL] @ v"
        unfolding f using nl_pair_Cons[of c "?f cs"] by blast
      have 2: "\<forall>v. ?f (c # cs) = NL # v \<longrightarrow> (\<exists>w. c # cs = NL # w)"
        unfolding f by simp
      have 3: "filter (\<lambda>x. \<not> is_space x) (?f (c # cs)) = filter (\<lambda>x. \<not> is_space x) (c # cs)"
        unfolding f using ih(3) by simp
      from 1 2 3 show ?thesis unfolding Cons by blast
    next
      case (Some ng)
      obtain n g where ng: "ng = (n, g)" by (cases ng)
      note p = match_blank_props[OF Some[unfolded ng]]
      let ?r = "drop (n - 1) cs"
      have f: "?f (c # cs) = NL # ?f ?r" by (simp add: re_sub_blank_Cons Some ng)
      have c: "c = NL" using match_blank_starts[of c cs] Some by simp
      have dr: "drop n (c # cs) = ?r" using p by (cases n) simp_all
      have len: "length ?r < length s" using Cons by simp
      note ih0 = 1[rule_format, OF len]
      have ih: "\<forall>u v. ?f ?r \<noteq> u @ [NL, NL] @ v"
        "\<forall>v. ?f ?r = NL # v \<longrightarrow> (\<exists>w. ?r = NL # w)"
        "filter (\<lambda>x. \<not> is_space x) (?f ?r) = filter (\<lambda>x. \<not> is_space x) ?r"
        by (rule ih0[THEN conjunct1], rule ih0[THEN conjunct2, THEN conjunct1],
            rule ih0[THEN conjunct2, THEN conjunct2])
      have "\<not> (\<exists>v. ?f ?r = NL # v)"
        using ih(2) p dr by auto
      with ih(1) have 1: "\<forall>u v. ?f (c # cs) \<noteq> u @ [NL, NL] @ v"
        unfolding f using nl_pair_Cons[of NL "?f ?r"] by blast
      have 2: "\<forall>v. ?f (c # cs) = NL # v \<longrightarrow> (\<exists>w. c # cs = NL # w)"
        unfolding c by simp
      have "c # cs = take n (c # cs) @ drop n (c # cs)" by simp
      then have "filter (\<lambda>x. \<not> is_space x) (c # cs)
          = filter (\<lambda>x. \<not> is_space x) (take n (c # cs)) @ filter (\<lambda>x. \<not> is_space x) ?r"
        unfolding dr by (metis filter_append)
      moreover have "filter (\<lambda>x. \<not> is_space x) (take n (c # cs)) = []"
        using p by (simp add: filter_empty_conv)
      ultimately have 3: "filter (\<lambda>x. \<not> is_space x) (?f (c # cs)) = filter (\<lambda>x. \<not> is_space x) (c # cs)"
        unfolding f using ih(3) is_space_NL by simp
      from 1 2 3 show ?thesis unfolding Cons by blast
    qed
  qed
qed

lemma filter_dropWhile_not: "filter (\<lambda>x. \<not> P x) (dropWhile P s) = filter (\<lambda>x. \<not> P x) s"
  by (induction s) simp_all

lemma str_strip_filter: "filter (\<lambda>x. \<not> is_space x) (str_strip s) = filter (\<lambda>x. \<not> is_space x) s"
  unfolding str_strip_def
  by (simp only: rev_filter[symmetric] filter_dropWhile_not rev_rev_ident)

lemma str_strip_ends:
  assumes "str_strip s \<noteq> []"
  shows "\<not> is_space (hd (str_strip s)) \<and> \<not> is_space (last (str_strip s))"
proof -
  let ?a = "dropWhile is_space s"
  let ?b = "dropWhile is_space (rev ?a)"
  from assms have b: "?b \<noteq> []" by (simp add: str_strip_def)
  have a: "?a \<noteq> []"
  proof
    assume "?a = []"
    with b show False by simp
  qed
  have 1: "\<not> is_space (hd ?b)" using b by (rule hd_dropWhile)
  have 2: "\<not> is_space (hd ?a)" using a by (rule hd_dropWhile)
  have "rev ?a = takeWhile is_space (rev ?a) @ ?b" by simp
  then have "last (rev ?a) = last ?b" using b by (metis last_appendR)
  then have "last ?b = hd ?a" using a by (simp add: last_rev)
  with 2 have "\<not> is_space (last ?b)" by simp
  with 1 b show ?thesis by (simp add: str_strip_def hd_rev last_rev)
qed

lemma str_strip_sub: "\<exists>p q. s = p @ str_strip s @ q"
proof -
  let ?a = "dropWhile is_space s"
  have 1: "s = takeWhile is_space s @ ?a" by simp
  have "rev (takeWhile is_space (rev ?a) @ dropWhile is_space (rev ?a)) = rev (rev ?a)"
    by (simp only: takeWhile_dropWhile_id)
  then have "rev (dropWhile is_space (rev ?a)) @ rev (takeWhile is_space (rev ?a)) = ?a"
    by (simp only: rev_append rev_rev_ident)
  then have 2: "?a = str_strip s @ rev (takeWhile is_space (rev ?a))"
    unfolding str_strip_def by (rule sym)
  from 1 2 have "s = takeWhile is_space s @ str_strip s @ rev (takeWhile is_space (rev ?a))" by simp
  then show ?thesis by blast
qed

lemma str_strip_id:
  "s \<noteq> [] \<Longrightarrow> \<not> is_space (hd s) \<Longrightarrow> \<not> is_space (last s) \<Longrightarrow> str_strip s = s"
proof -
  assume s: "s \<noteq> []" and h: "\<not> is_space (hd s)" and l: "\<not> is_space (last s)"
  from s h have 1: "dropWhile is_space s = s" by (cases s) simp_all
  from s l have "\<not> is_space (hd (rev s))" by (simp add: hd_rev)
  with s have 2: "dropWhile is_space (rev s) = rev s" by (cases "rev s") simp_all
  show ?thesis by (simp add: str_strip_def 1 2)
qed

lemma collapse_blank_props:
  "filter (\<lambda>x. \<not> is_space x) (collapse_blank s) = filter (\<lambda>x. \<not> is_space x) s
   \<and> \<not> (\<exists>u v. collapse_blank s = u @ [NL, NL] @ v)
   \<and> (collapse_blank s \<noteq> [] \<longrightarrow> \<not> is_space (hd (collapse_blank s)) \<and> \<not> is_space (last (collapse_blank s)))"
proof -
  let ?r = "re_sub_const match_blank [NL] s"
  note r = re_sub_blank_props[of s]
  have 1: "filter (\<lambda>x. \<not> is_space x) (collapse_blank s) = filter (\<lambda>x. \<not> is_space x) s"
    unfolding collapse_blank_def str_strip_filter using r by simp
  have 2: "\<not> (\<exists>u v. collapse_blank s = u @ [NL, NL] @ v)"
  proof
    assume "\<exists>u v. collapse_blank s = u @ [NL, NL] @ v"
    then obtain u v where e: "str_strip ?r = u @ [NL, NL] @ v" unfolding collapse_blank_def by blast
    obtain p q where "?r = p @ str_strip ?r @ q" using str_strip_sub by blast
    then have "?r = (p @ u) @ [NL, NL] @ (v @ q)" unfolding e by simp
    with r show False by blast
  qed
  have 3: "collapse_blank s \<noteq> [] \<longrightarrow> \<not> is_space (hd (collapse_blank s)) \<and> \<not> is_space (last (collapse_blank s))"
    unfolding collapse_blank_def using str_strip_ends by blast
  from 1 2 3 show ?thesis by blast
qed

lemma re_scan_blank_none:
  "(\<forall>u v. s = u @ NL # v \<longrightarrow> v \<noteq> [] \<and> \<not> is_space (hd v)) \<Longrightarrow> re_sub_const match_blank [NL] s = s"
proof (induction s)
  case Nil
  then show ?case by (simp add: re_sub_const_def)
next
  case (Cons c cs)
  have q: "\<forall>u v. cs = u @ NL # v \<longrightarrow> v \<noteq> [] \<and> \<not> is_space (hd v)"
  proof (intro allI impI)
    fix u v assume "cs = u @ NL # v"
    then have "c # cs = (c # u) @ NL # v" by simp
    with Cons.prems show "v \<noteq> [] \<and> \<not> is_space (hd v)" by blast
  qed
  have "match_blank (c # cs) = None"
  proof (cases "c = NL")
    case False
    then show ?thesis by (simp add: match_blank_def)
  next
    case True
    then have "c # cs = [] @ NL # cs" by simp
    with Cons.prems have "cs \<noteq> [] \<and> \<not> is_space (hd cs)" by blast
    then have "ws_then_nl cs = None" by (cases cs) simp_all
    with True show ?thesis by (simp add: match_blank_def)
  qed
  then show ?case using Cons.IH[OF q] by (simp add: re_sub_blank_Cons)
qed

lemma collapse_blank_id:
  assumes "\<forall>u v. s = u @ NL # v \<longrightarrow> v \<noteq> [] \<and> \<not> is_space (hd v)"
    and "s \<noteq> []" "\<not> is_space (hd s)" "\<not> is_space (last s)"
  shows "collapse_blank s = s"
  unfolding collapse_blank_def re_scan_blank_none[OF assms(1)] using assms(2-4) by (rule str_strip_id)

lemma truncate_length: "length (if length c > 500 then take 497 c @ ascii ''...'' else c) \<le> 500"
  by (simp add: ascii_def)

lemma fallback_exhausted:
  assumes n: "notes \<noteq> []" "notes \<noteq> NO_DESCRIPTION"
    and f: "\<forall>k<3. chat_fails (chat_completion e k)"
  shows "fst (get_openrouter_summary e notes lang initial_state)
           = fst (escape_markdown_v2 (uuid4_hex e) 0 (fallback_plain notes))
       \<and> length (filter is_Chat (trace (snd (get_openrouter_summary e notes lang initial_state)))) = 3"
proof -
  from summary_retry_exhausted[OF n f, of lang] obtain ex st where
    r: "get_openrouter_summary_with_retry e notes lang initial_state = (Inl ex, st)"
       "length (filter is_Chat (trace st)) = 3" "draws st = 0" by blast
  show ?thesis
    by (simp add: get_openrouter_summary_def r case_prod_beta)
qed

text \<open>
  C8.  When the three attempts of the summary call fail, \<open>get_openrouter_summary\<close>
  returns the escaped plain text: the release notes with their links replaced by the
  labels (\<open>strip_links\<close>), without the characters \<^verbatim>\<open>* _ ` ~ # >\<close>, with the blank
  lines collapsed and the ends stripped (\<open>collapse_blank\<close>), cut to 497 characters and
  three dots when longer than 500 characters, and then passed through the escaper.
  The collapsing removes white space only, leaves no two line feeds in a row and no
  white space at either end.  The function has no branch that raises: every step of
  the \<open>except\<close> branch is defined on every string.
  The last three parts say what the first and the third stage do: a text without an
  opening bracket has no link and is kept; a link whose label has no closing bracket
  and whose address has no closing parenthesis, neither with a line feed, is replaced
  by its label after a text without an opening bracket; and a text in which every line
  feed is followed by a character that is not white space, and that neither starts
  nor ends with white space, is kept by the collapsing.
\<close>

theorem fallback_summary_stages:
  "(release_notes \<noteq> [] \<and> release_notes \<noteq> NO_DESCRIPTION \<and> (\<forall>k<3. chat_fails (chat_completion e k)) \<longrightarrow>
      (let a = strip_links release_notes;
           b = strip_markers a;
           c = collapse_blank b;
           plain_text = (if length c > 500 then take 497 c @ ascii ''...'' else c);
           res = get_openrouter_summary e release_notes lang initial_state
       in fst res = fst (escape_markdown_v2 (uuid4_hex e) 0 plain_text)
          \<and> length (filter is_Chat (trace (snd res))) = 3
          \<and> length plain_text \<le> 500
          \<and> b = filter (\<lambda>x. x \<notin> set (ascii ''*_`~#>'')) a
          \<and> filter (\<lambda>x. \<not> is_space x) c = filter (\<lambda>x. \<not> is_space x) b
          \<and> \<not> (\<exists>u v. c = u @ [NL, NL] @ v)
          \<and> (c \<noteq> [] \<longrightarrow> \<not> is_space (hd c) \<and> \<not> is_space (last c))))
   \<and> (LBR \<notin> set s \<longrightarrow> strip_links s = s)
   \<and> (LBR \<notin> set pre \<and> RBR \<notin> set label \<and> NL \<notin> set label \<and> RPAR \<notin> set url \<and> NL \<notin> set url
        \<longrightarrow> strip_links (pre @ [LBR] @ label @ [RBR, LPAR] @ url @ [RPAR] @ rest)
              = pre @ label @ strip_links rest)
   \<and> ((\<forall>u v. t = u @ NL # v \<longrightarrow> v \<noteq> [] \<and> \<not> is_space (hd v))
        \<and> t \<noteq> [] \<and> \<not> is_space (hd t) \<and> \<not> is_space (last t)
        \<longrightarrow> collapse_blank t = t)"
proof (intro conjI impI)
  assume h: "release_notes \<noteq> [] \<and> release_notes \<noteq> NO_DESCRIPTION \<and> (\<forall>k<3. chat_fails (chat_completion e k))"
  let ?a = "strip_links release_notes"
  let ?b = "strip_markers ?a"
  let ?c = "collapse_blank ?b"
  let ?p = "if length ?c > 500 then take 497 ?c @ ascii ''...'' else ?c"
  let ?res = "get_openrouter_summary e release_notes lang initial_state"
  from h have n: "release_notes \<noteq> []" "release_notes \<noteq> NO_DESCRIPTION"
    and f: "\<forall>k<3. chat_fails (chat_completion e k)" by simp_all
  note fe = fallback_exhausted[OF n f, of lang, unfolded fallback_plain_def truncate_500_def]
  note cb = collapse_blank_props[of ?b]
  have 1: "fst ?res = fst (escape_markdown_v2 (uuid4_hex e) 0 ?p)" by (rule fe[THEN conjunct1])
  have 2: "length (filter is_Chat (trace (snd ?res))) = 3" by (rule fe[THEN conjunct2])
  have 3: "length ?p \<le> 500" by (rule truncate_length)
  have 4: "?b = filter (\<lambda>x. x \<notin> set (ascii ''*_`~#>'')) ?a" by (rule strip_markers_filter)
  have 5: "filter (\<lambda>x. \<not> is_space x) ?c = filter (\<lambda>x. \<not> is_space x) ?b" by (rule cb[THEN conjunct1])
  have 6: "\<not> (\<exists>u v. ?c = u @ [NL, NL] @ v)" by (rule cb[THEN conjunct2, THEN conjunct1])
  have 7: "?c \<noteq> [] \<longrightarrow> \<not> is_space (hd ?c) \<and> \<not> is_space (last ?c)"
    by (rule cb[THEN conjunct2, THEN conjunct2])
  show "let a = strip_links release_notes;
           b = strip_markers a;
           c = collapse_blank b;
           plain_text = (if length c > 500 then take 497 c @ ascii ''...'' else c);
           res = get_openrouter_summary e release_notes lang initial_state
       in fst res = fst (escape_markdown_v2 (uuid4_hex e) 0 plain_text)
          \<and> length (filter is_Chat (trace (snd res))) = 3
          \<and> length plain_text \<le> 500
          \<and> b = filter (\<lambda>x. x \<notin> set (ascii ''*_`~#>'')) a
          \<and> filter (\<lambda>x. \<not> is_space x) c = filter (\<lambda>x. \<not> is_space x) b
          \<and> \<not> (\<exists>u v. c = u @ [NL, NL] @ v)
          \<and> (c \<noteq> [] \<longrightarrow> \<not> is_space (hd c) \<and> \<not> is_space (last c))"
    unfolding Let_def by (intro conjI) (rule 1 2 3 4 5 6 7)+
next
  assume "LBR \<notin> set s"
  then show "strip_links s = s" by (rule strip_links_no_bracket)
next
  assume "LBR \<notin> set pre \<and> RBR \<notin> set label \<and> NL \<notin> set label \<and> RPAR \<notin> set url \<and> NL \<notin> set url"
  then show "strip_links (pre @ [LBR] @ label @ [RBR, LPAR] @ url @ [RPAR] @ rest)
      = pre @ label @ strip_links rest"
    using strip_links_simple[of pre label url rest] by blast
next
  assume "(\<forall>u v. t = u @ NL # v \<longrightarrow> v \<noteq> [] \<and> \<not> is_space (hd v))
        \<and> t \<noteq> [] \<and> \<not> is_space (hd t) \<and> \<not> is_space (last t)"
  then show "collapse_blank t = t"
    using collapse_blank_id[of t] by blast
qed

theorem fallback_summary_stages_witness:
  "fst (get_openrouter_summary (constant_env (Failure []) (Failure []) (Failure []))
          (ascii ''[a](b) *c*'' @ [NL, NL, NL] @ ascii ''d.'') (ascii ''en'') initial_state)
     = ascii ''a c'' @ [NL] @ ascii ''d'' @ [BSL] @ ascii ''.''
   \<and> strip_links (ascii ''[a](b) *c*'' @ [NL, NL, NL] @ ascii ''d.'')
       = ascii ''a *c*'' @ [NL, NL, NL] @ ascii ''d.''
   \<and> collapse_blank (ascii ''a'' @ [NL] @ ascii ''b'') = ascii ''a'' @ [NL] @ ascii ''b''"
proof -
  let ?e = "constant_env (Failure []) (Failure []) (Failure [])"
  let ?notes = "ascii ''[a](b) *c*'' @ [NL, NL, NL] @ ascii ''d.''"
  let ?rest = "ascii '' *c*'' @ [NL, NL, NL] @ ascii ''d.''"
  let ?t = "ascii ''a'' @ [NL] @ ascii ''b''"
  let ?c = "collapse_blank (strip_markers (strip_links ?notes))"
  note T = fallback_summary_stages[where release_notes = ?notes and e = ?e and lang = "ascii ''en''"
      and s = ?rest and pre = "[]" and label = "ascii ''a''" and url = "ascii ''b''"
      and rest = ?rest and t = ?t, unfolded Let_def]
  have h1: "?notes \<noteq> [] \<and> ?notes \<noteq> NO_DESCRIPTION \<and> (\<forall>k<3. chat_fails (chat_completion ?e k))"
    by (simp add: constant_env_def chat_fails_def NO_DESCRIPTION_def ascii_def)
  have h2: "LBR \<notin> set ?rest"
    by (simp add: ascii_def)
  have h3: "LBR \<notin> set ([]::ustr) \<and> RBR \<notin> set (ascii ''a'') \<and> NL \<notin> set (ascii ''a'')
      \<and> RPAR \<notin> set (ascii ''b'') \<and> NL \<notin> set (ascii ''b'')"
    by (simp add: ascii_def)
  have h4: "(\<forall>u v. ?t = u @ NL # v \<longrightarrow> v \<noteq> [] \<and> \<not> is_space (hd v))
      \<and> ?t \<noteq> [] \<and> \<not> is_space (hd ?t) \<and> \<not> is_space (last ?t)"
    by (auto simp: ascii_def is_space_def Cons_eq_append_conv)
  have l: "\<not> length (ascii ''a c'' @ [NL] @ ascii ''d.'') > 500" by (simp add: ascii_def)
  have e: "fst (escape_markdown_v2 (uuid4_hex ?e) 0 (ascii ''a c'' @ [NL] @ ascii ''d.''))
      = ascii ''a c'' @ [NL] @ ascii ''d'' @ [BSL] @ ascii ''.''"
    by (subst escape_no_bracket) (simp_all add: backslashed_def escape_chars_v2_def ascii_def)
  from mp[OF T[THEN conjunct2, THEN conjunct1] h2]
  have r: "strip_links ?rest = ?rest" .
  from mp[OF T[THEN conjunct2, THEN conjunct2, THEN conjunct1] h3]
  have "strip_links ([] @ [LBR] @ ascii ''a'' @ [RBR, LPAR] @ ascii ''b'' @ [RPAR] @ ?rest)
      = [] @ ascii ''a'' @ ?rest"
    unfolding r .
  moreover have "[] @ [LBR] @ ascii ''a'' @ [RBR, LPAR] @ ascii ''b'' @ [RPAR] @ ?rest = ?notes"
    by (simp add: ascii_def)
  moreover have "[] @ ascii ''a'' @ ?rest = ascii ''a *c*'' @ [NL, NL, NL] @ ascii ''d.''"
    by (simp add: ascii_def)
  ultimately have w2: "strip_links ?notes = ascii ''a *c*'' @ [NL, NL, NL] @ ascii ''d.''"
    by (simp only:)
  have m: "strip_markers (ascii ''a *c*'' @ [NL, NL, NL] @ ascii ''d.'')
      = ascii ''a c'' @ [NL, NL, NL] @ ascii ''d.''"
    by (simp add: strip_markers_def re_sub_const_def match_class_def ascii_def)
  have b: "collapse_blank (ascii ''a c'' @ [NL, NL, NL] @ ascii ''d.'') = ascii ''a c'' @ [NL] @ ascii ''d.''"
    by (simp add: collapse_blank_def re_sub_const_def match_blank_def is_space_def str_strip_def
        ascii_def)
  have c: "?c = ascii ''a c'' @ [NL] @ ascii ''d.''"
    by (simp only: w2 m b)
  from mp[OF T[THEN conjunct1] h1]
  have "fst (get_openrouter_summary ?e ?notes (ascii ''en'') initial_state)
      = fst (escape_markdown_v2 (uuid4_hex ?e) 0 (if length ?c > 500 then take 497 ?c @ ascii ''...'' else ?c))"
    by (rule conjunct1)
  then have w1: "fst (get_openrouter_summary ?e ?notes (ascii ''en'') initial_state)
      = ascii ''a c'' @ [NL] @ ascii ''d'' @ [BSL] @ ascii ''.''"
    unfolding c by (simp only: l if_False e)
  from mp[OF T[THEN conjunct2, THEN conjunct2, THEN conjunct2] h4]
  have w3: "collapse_blank ?t = ?t" .
  from w1 w2 w3 show ?thesis by (intro conjI)
qed

end
